theory Spec2Isabelle
  imports Main "HOL-Library.Char_ord" "HOL-Library.List_Lexorder" "HOL-Library.Sublist"
begin

section \<open>Python strings\<close>

text \<open>
  A Python \<open>str\<close> is modelled as an Isabelle \<open>string\<close>.  The inputs of the
  package (unit names, model names, requirement strings) are ASCII text; on ASCII text
  \<open>str.casefold\<close> lowers the letters \<open>A\<close> to \<open>Z\<close> and leaves every other
  character alone.  The theorems below mention the folded unit only through
  \<open>casefold u\<close>, so they do not depend on how a character outside ASCII is folded.
\<close>

definition casefold_char :: "char \<Rightarrow> char" where
  "casefold_char c =
     (if CHR ''A'' \<le> c \<and> c \<le> CHR ''Z'' then char_of (of_char c + (32::nat)) else c)"

definition casefold :: "string \<Rightarrow> string" where
  "casefold s = map casefold_char s"


section \<open>Unit normaliser (\<open>helpers.py\<close>, both copies)\<close>

text \<open>
  \<^verbatim>\<open>
  def human_readable_to_bytes(value: int, unit: str) -> int:
      unit = unit.casefold()
      if unit == "b":                      return value
      elif unit == "kb" or unit == "kib":  return value * 1024
      elif unit == "mb" or unit == "mib":  return value * (1024 ** 2)
      elif unit == "gb" or unit == "gib":  return value * (1024 ** 3)
      elif unit == "tb" or unit == "tib":  return value * (1024 ** 4)
      else:                                return value
  \<close>
  Python integers are unbounded, so \<open>value\<close> is an \<open>int\<close>.  The copy in
  \<open>database-scripts/helpers.py\<close> is the same text.
\<close>

definition human_readable_to_bytes :: "int \<Rightarrow> string \<Rightarrow> int" where
  "human_readable_to_bytes value unit =
     (let unit = casefold unit in
      if unit = ''b'' then value
      else if unit = ''kb'' \<or> unit = ''kib'' then value * 1024
      else if unit = ''mb'' \<or> unit = ''mib'' then value * (1024 ^ 2)
      else if unit = ''gb'' \<or> unit = ''gib'' then value * (1024 ^ 3)
      else if unit = ''tb'' \<or> unit = ''tib'' then value * (1024 ^ 4)
      else value)"

text \<open>
  \<^verbatim>\<open>
  def human_readable_to_hertz(value: int, unit: str) -> int:
      unit = unit.casefold()
      if unit == "khz":    return value * (10 ** 3)
      elif unit == "mhz":  return value * (10 ** 6)
      elif unit == "ghz":  return value * (10 ** 9)
      elif unit == "thz":  return value * (10 ** 12)
      else:                return value
  \<close>
\<close>

definition human_readable_to_hertz :: "int \<Rightarrow> string \<Rightarrow> int" where
  "human_readable_to_hertz value unit =
     (let unit = casefold unit in
      if unit = ''khz'' then value * (10 ^ 3)
      else if unit = ''mhz'' then value * (10 ^ 6)
      else if unit = ''ghz'' then value * (10 ^ 9)
      else if unit = ''thz'' then value * (10 ^ 12)
      else value)"

text \<open>The unit vocabulary of each converter, as the comparisons of the code list it.\<close>

definition byte_units :: "string set" where
  "byte_units = {''b'', ''kb'', ''kib'', ''mb'', ''mib'', ''gb'', ''gib'', ''tb'', ''tib''}"

definition hertz_units :: "string set" where
  "hertz_units = {''khz'', ''mhz'', ''ghz'', ''thz''}"


section \<open>The longest match of \<open>difflib.SequenceMatcher\<close>\<close>

text \<open>
  \<open>_find_by_model\<close> builds \<open>difflib.SequenceMatcher(b=unexact_model)\<close>, with the
  defaults \<open>isjunk=None\<close> and \<open>autojunk=True\<close>, sets each key as the first sequence
  and calls \<open>find_longest_match()\<close> on the whole of both sequences.  The matcher is
  modelled as the standard library runs it under these arguments.  It works on any
  sequence of hashable elements, so the model is polymorphic in the element type.

  \<open>__chain_b\<close> indexes the second sequence: \<open>b2j[elt]\<close> is the increasing list of
  the positions of \<open>elt\<close> in \<open>b\<close>.
  \<^verbatim>\<open>
      for i, elt in enumerate(b):
          indices = b2j.setdefault(elt, [])
          indices.append(i)
  \<close>
  A dictionary read with \<open>b2j.get(x, [])\<close> is a function that yields \<open>[]\<close> on a
  missing key.
\<close>

definition b2j_all :: "'a list \<Rightarrow> 'a \<Rightarrow> nat list" where
  "b2j_all b = fold (\<lambda>(i, elt) b2j. b2j(elt := b2j elt @ [i])) (enumerate 0 b) (\<lambda>_. [])"

text \<open>
  No element is junk (\<open>isjunk\<close> is \<open>None\<close>).  With \<open>autojunk\<close> on, a second
  sequence of 200 elements or more loses its popular elements from the index:
  \<^verbatim>\<open>
      n = len(b)
      if self.autojunk and n >= 200:
          ntest = n // 100 + 1
          for elt, idxs in b2j.items():
              if len(idxs) > ntest:
                  popular.add(elt)
          for elt in popular:
              del b2j[elt]
  \<close>
\<close>

definition chain_b :: "'a list \<Rightarrow> 'a \<Rightarrow> nat list" where
  "chain_b b =
     (let b2j = b2j_all b; n = length b in
      if n \<ge> 200 then
        (let ntest = n div 100 + 1 in (\<lambda>elt. if length (b2j elt) > ntest then [] else b2j elt))
      else b2j)"

text \<open>A match is the triple \<open>(besti, bestj, bestsize)\<close>; \<open>match[2]\<close> is its size.\<close>

type_synonym match = "nat \<times> nat \<times> nat"

definition size_of :: "match \<Rightarrow> nat" where
  "size_of m = snd (snd m)"

text \<open>
  The main loop of \<open>find_longest_match\<close>, with \<open>alo = blo = 0\<close>, \<open>ahi = len(a)\<close>
  and \<open>bhi = len(b)\<close>:
  \<^verbatim>\<open>
      besti, bestj, bestsize = alo, blo, 0
      j2len = {}
      for i in range(alo, ahi):
          newj2len = {}
          for j in b2j.get(a[i], nothing):
              if j < blo: continue
              if j >= bhi: break
              k = newj2len[j] = j2len.get(j-1, 0) + 1
              if k > bestsize:
                  besti, bestj, bestsize = i-k+1, j-k+1, k
          j2len = newj2len
  \<close>
  Every \<open>j\<close> of the index is a position of \<open>b\<close>, so neither the \<open>continue\<close> nor the
  \<open>break\<close> is taken.  \<open>j2len.get(j-1, 0)\<close> at \<open>j = 0\<close> asks for the key \<open>-1\<close>, which
  no dictionary of positions holds.  \<open>k\<close> never exceeds \<open>i + 1\<close> and \<open>j + 1\<close>, so
  the new start positions are natural numbers.
\<close>

definition j2len_get :: "(nat \<rightharpoonup> nat) \<Rightarrow> nat \<Rightarrow> nat" where
  "j2len_get j2len j = (if j = 0 then 0 else case j2len (j - 1) of None \<Rightarrow> 0 | Some k \<Rightarrow> k)"

fun inner_loop ::
  "nat \<Rightarrow> (nat \<rightharpoonup> nat) \<Rightarrow> nat list \<Rightarrow> (nat \<rightharpoonup> nat) \<times> match \<Rightarrow> (nat \<rightharpoonup> nat) \<times> match" where
  "inner_loop i j2len [] st = st"
| "inner_loop i j2len (j # js) (newj2len, (besti, bestj, bestsize)) =
     (let k = j2len_get j2len j + 1;
          newj2len = newj2len(j \<mapsto> k)
      in if k > bestsize then inner_loop i j2len js (newj2len, (i + 1 - k, j + 1 - k, k))
         else inner_loop i j2len js (newj2len, (besti, bestj, bestsize)))"

fun main_loop ::
  "('a \<Rightarrow> nat list) \<Rightarrow> 'a list \<Rightarrow> nat list \<Rightarrow> (nat \<rightharpoonup> nat) \<times> match \<Rightarrow> (nat \<rightharpoonup> nat) \<times> match" where
  "main_loop b2j a [] st = st"
| "main_loop b2j a (i # is) (j2len, best) =
     main_loop b2j a is (inner_loop i j2len (b2j (a ! i)) (Map.empty, best))"

text \<open>
  The match is then extended on both sides while the neighbouring elements agree:
  \<^verbatim>\<open>
      while besti > alo and bestj > blo and \
            not isbjunk(b[bestj-1]) and \
            a[besti-1] == b[bestj-1]:
          besti, bestj, bestsize = besti-1, bestj-1, bestsize+1
      while besti+bestsize < ahi and bestj+bestsize < bhi and \
            not isbjunk(b[bestj+bestsize]) and \
            a[besti+bestsize] == b[bestj+bestsize]:
          bestsize += 1
  \<close>
  The set of junk elements is empty, so \<open>not isbjunk(...)\<close> holds, and the two further
  loops that absorb junk elements do not run.
\<close>

function extend_left :: "'a list \<Rightarrow> 'a list \<Rightarrow> match \<Rightarrow> match" where
  "extend_left a b (besti, bestj, bestsize) =
     (if besti > 0 \<and> bestj > 0 \<and> a ! (besti - 1) = b ! (bestj - 1)
      then extend_left a b (besti - 1, bestj - 1, bestsize + 1)
      else (besti, bestj, bestsize))"
  by pat_completeness auto
termination
  by (relation "measure (\<lambda>(a, b, besti, bestj, bestsize). besti)") auto

function extend_right :: "'a list \<Rightarrow> 'a list \<Rightarrow> match \<Rightarrow> match" where
  "extend_right a b (besti, bestj, bestsize) =
     (if besti + bestsize < length a \<and> bestj + bestsize < length b
         \<and> a ! (besti + bestsize) = b ! (bestj + bestsize)
      then extend_right a b (besti, bestj, bestsize + 1)
      else (besti, bestj, bestsize))"
  by pat_completeness auto
termination
  by (relation "measure (\<lambda>(a, b, besti, bestj, bestsize). length a - (besti + bestsize))") auto

declare extend_left.simps [simp del] extend_right.simps [simp del]

definition find_longest_match :: "'a list \<Rightarrow> 'a list \<Rightarrow> match" where
  "find_longest_match a b =
     (let best = snd (main_loop (chain_b b) a [0..<length a] (Map.empty, (0, 0, 0)));
          best = extend_left a b best;
          best = extend_right a b best
      in best)"


section \<open>The fuzzy model matcher (\<open>comphardware/helpers.py\<close>)\<close>

text \<open>
  \<^verbatim>\<open>
  def _find_by_model(cls, database: dict, unexact_model: str):
      sequence_matcher = difflib.SequenceMatcher(b=unexact_model)
      current_score = 0
      exact_model = None
      for model in database.keys():
          sequence_matcher.set_seq1(model)
          match = sequence_matcher.find_longest_match()
          if match[2] > current_score:
              current_score = match[2]
              exact_model = model
      if exact_model is None:
          return None
      component = database[exact_model]
      return component
  \<close>
  The database is a dictionary, iterated in insertion order: an association list of
  keys and records.  \<open>database[exact_model]\<close> raises \<open>KeyError\<close> on a missing key,
  so the result is a sum: \<open>Inl\<close> an exception, \<open>Inr None\<close> the value \<open>None\<close>,
  \<open>Inr (Some r)\<close> a record.  (\<open>AttributeError\<close> is what a method call on \<open>None\<close>
  raises and \<open>ValueError\<close> what \<open>int\<close> raises; the requirement parser below meets
  both.)
\<close>

datatype py_error = KeyError | AttributeError | ValueError

fun find_loop :: "'a list \<Rightarrow> 'a list list \<Rightarrow> nat \<times> 'a list option \<Rightarrow> nat \<times> 'a list option" where
  "find_loop unexact_model [] st = st"
| "find_loop unexact_model (model # models) (current_score, exact_model) =
     (let match = find_longest_match model unexact_model in
      if size_of match > current_score
      then find_loop unexact_model models (size_of match, Some model)
      else find_loop unexact_model models (current_score, exact_model))"

definition find_by_model :: "'c \<Rightarrow> ('a list \<times> 'r) list \<Rightarrow> 'a list \<Rightarrow> py_error + 'r option" where
  "find_by_model cls database unexact_model =
     (case snd (find_loop unexact_model (map fst database) (0, None)) of
        None \<Rightarrow> Inr None
      | Some exact_model \<Rightarrow>
          (case map_of database exact_model of
             None \<Rightarrow> Inl KeyError
           | Some component \<Rightarrow> Inr (Some component)))"

text \<open>
  The notions the specification uses.  The length of the longest contiguous common
  substring of two sequences:
\<close>

definition lcs_length :: "'a list \<Rightarrow> 'a list \<Rightarrow> nat" where
  "lcs_length a b = Max (length ` {w. sublist w a \<and> sublist w b})"

text \<open>
  The first key, in iteration order, whose longest common substring with the query is
  as long as that of every key, and the record stored under it:
\<close>

definition first_best_key :: "'a list list \<Rightarrow> 'a list \<Rightarrow> 'a list option" where
  "first_best_key keys query =
     find (\<lambda>k. \<forall>k'\<in>set keys. lcs_length k' query \<le> lcs_length k query) keys"

definition best_record :: "('a list \<times> 'r) list \<Rightarrow> 'a list \<Rightarrow> 'r option" where
  "best_record database query =
     (case first_best_key (map fst database) query of
        None \<Rightarrow> None
      | Some k \<Rightarrow> map_of database k)"

text \<open>A query of 201 characters: one \<open>b\<close>, then 200 times \<open>a\<close>.\<close>

definition long_query :: string where
  "long_query = CHR ''b'' # replicate 200 (CHR ''a'')"

section \<open>RAM from a requirement string (\<open>setup_from_clutter\<close>)\<close>

text \<open>
  \<^verbatim>\<open>
      try:
          ram_clutter = ram_clutter.casefold().split(" ")
          value = None
          unit = None
          for i, part in enumerate(ram_clutter):
              if part.isdigit():
                  value = int(part)
                  if i == len(ram_clutter) - 1:
                      unit = "b"
                  else:
                      unit = ram_clutter[i + 1]
                  break
          ram = human_readable_to_bytes(value, unit)
      except:
          ram = None
  \<close>
  \<open>str.split(" ")\<close> cuts at every single space: two spaces in a row give an empty
  part, the empty string gives one empty part, and no other character separates.
\<close>

fun split_space :: "string \<Rightarrow> string list" where
  "split_space [] = [[]]"
| "split_space (c # cs) =
     (if c = CHR '' '' then [] # split_space cs
      else (case split_space cs of [] \<Rightarrow> [[c]] | w # ws \<Rightarrow> (c # w) # ws))"

text \<open>
  In this section a character stands for the code point of its number, below 256.
  Among these, \<open>str.isdigit\<close> holds for the characters \<open>0\<close> to \<open>9\<close> and for the
  superscript digits U+00B2, U+00B3 and U+00B9, and a string satisfies it when it is
  not empty and each of its characters does.  Case folding leaves all of them, and the
  space, alone.
\<close>

definition is_ascii_digit :: "char \<Rightarrow> bool" where
  "is_ascii_digit c \<longleftrightarrow> CHR ''0'' \<le> c \<and> c \<le> CHR ''9''"

definition is_digit_char :: "char \<Rightarrow> bool" where
  "is_digit_char c \<longleftrightarrow>
     is_ascii_digit c \<or> c = CHR 0xB2 \<or> c = CHR 0xB3 \<or> c = CHR 0xB9"

definition isdigit :: "string \<Rightarrow> bool" where
  "isdigit s \<longleftrightarrow> s \<noteq> [] \<and> list_all is_digit_char s"

text \<open>
  \<open>int\<close> reads a string of the characters \<open>0\<close> to \<open>9\<close> in base ten.  The loop
  calls it only on a part that satisfies \<open>isdigit\<close>; such a part is a decimal number
  unless it holds a superscript digit, and then \<open>int\<close> raises \<open>ValueError\<close>.
\<close>

definition is_decimal :: "string \<Rightarrow> bool" where
  "is_decimal s \<longleftrightarrow> s \<noteq> [] \<and> list_all is_ascii_digit s"

definition int_of_digits :: "string \<Rightarrow> int" where
  "int_of_digits s = foldl (\<lambda>n c. 10 * n + (int (of_char c) - 48)) 0 s"

text \<open>
  \<open>int\<close> also refuses a decimal string of more than \<open>sys.get_int_max_str_digits()\<close>
  digits with \<open>ValueError\<close>; the limit is 4300 by default, and 0 switches it off (as
  in interpreters that have no such limit).  It is a parameter of the model.
\<close>

definition too_long :: "nat \<Rightarrow> string \<Rightarrow> bool" where
  "too_long max_str_digits s \<longleftrightarrow> 0 < max_str_digits \<and> max_str_digits < length s"

definition py_int :: "nat \<Rightarrow> string \<Rightarrow> py_error + int" where
  "py_int max_str_digits s =
     (if is_decimal s then
        (if too_long max_str_digits s then Inl ValueError else Inr (int_of_digits s))
      else Inl ValueError)"

text \<open>
  The loop sets \<open>value\<close> and \<open>unit\<close> together and stops at the first part of
  digits; \<open>None\<close> stands for both still being \<open>None\<close> after the loop.  The index
  \<open>i + 1\<close> is read only when \<open>i\<close> is not the last index, so it is in range.
\<close>

fun scan_parts ::
  "nat \<Rightarrow> string list \<Rightarrow> nat \<Rightarrow> string list \<Rightarrow> py_error + (int \<times> string) option" where
  "scan_parts max_str_digits ram_clutter i [] = Inr None"
| "scan_parts max_str_digits ram_clutter i (part # parts) =
     (if isdigit part then
        (case py_int max_str_digits part of
           Inl e \<Rightarrow> Inl e
         | Inr value \<Rightarrow>
             Inr (Some (value,
                        if i = length ram_clutter - 1 then ''b'' else ram_clutter ! (i + 1))))
      else scan_parts max_str_digits ram_clutter (i + 1) parts)"

definition extract_value_unit :: "nat \<Rightarrow> string \<Rightarrow> py_error + (int \<times> string) option" where
  "extract_value_unit max_str_digits ram_clutter =
     (let ram_clutter = split_space (casefold ram_clutter)
      in scan_parts max_str_digits ram_clutter 0 ram_clutter)"

text \<open>
  With \<open>unit\<close> still \<open>None\<close> the call \<open>human_readable_to_bytes(None, None)\<close> raises
  \<open>AttributeError\<close> at \<open>unit.casefold()\<close>; the bare \<open>except\<close> turns every
  exception of the block into \<open>ram = None\<close>.
\<close>

definition ram_try :: "nat \<Rightarrow> string \<Rightarrow> py_error + int" where
  "ram_try max_str_digits ram_clutter =
     (case extract_value_unit max_str_digits ram_clutter of
        Inl e \<Rightarrow> Inl e
      | Inr None \<Rightarrow> Inl AttributeError
      | Inr (Some (value, unit)) \<Rightarrow> Inr (human_readable_to_bytes value unit))"

definition ram_from_clutter :: "nat \<Rightarrow> string \<Rightarrow> int option" where
  "ram_from_clutter max_str_digits ram_clutter =
     (case ram_try max_str_digits ram_clutter of Inl e \<Rightarrow> None | Inr ram \<Rightarrow> Some ram)"

text \<open>
  The extraction as the specification words it: split on whitespace (runs of whitespace
  separate, no empty token), take the first token that parses as an integer (an optional
  sign, then the digits \<open>0\<close> to \<open>9\<close>), and the token after it, or \<open>b\<close> when it is
  the last one.
\<close>

definition is_space :: "char \<Rightarrow> bool" where
  "is_space c \<longleftrightarrow> c \<in> {CHR '' '', CHR 0x09, CHR 0x0A, CHR 0x0B, CHR 0x0C, CHR 0x0D}"

fun split_whitespace :: "string \<Rightarrow> string list" where
  "split_whitespace [] = []"
| "split_whitespace (c # cs) =
     (if is_space c then split_whitespace cs
      else (case cs of
              [] \<Rightarrow> [[c]]
            | d # ds \<Rightarrow>
                if is_space d then [c] # split_whitespace cs
                else (case split_whitespace cs of [] \<Rightarrow> [[c]] | w # ws \<Rightarrow> (c # w) # ws)))"

definition parse_integer :: "string \<Rightarrow> int option" where
  "parse_integer t =
     (case t of
        [] \<Rightarrow> None
      | c # cs \<Rightarrow>
          if c = CHR ''-'' then (if is_decimal cs then Some (- int_of_digits cs) else None)
          else if c = CHR ''+'' then (if is_decimal cs then Some (int_of_digits cs) else None)
          else if is_decimal t then Some (int_of_digits t) else None)"

fun spec_scan :: "string list \<Rightarrow> (int \<times> string) option" where
  "spec_scan [] = None"
| "spec_scan (t # ts) =
     (case parse_integer t of
        Some v \<Rightarrow> Some (v, case ts of [] \<Rightarrow> ''b'' | u # _ \<Rightarrow> u)
      | None \<Rightarrow> spec_scan ts)"

definition spec_extract :: "string \<Rightarrow> (int \<times> string) option" where
  "spec_extract s = spec_scan (split_whitespace s)"

definition spec_ram :: "string \<Rightarrow> int option" where
  "spec_ram s = map_option (\<lambda>(v, u). human_readable_to_bytes v u) (spec_extract s)"


section \<open>Records and the database files (\<open>database-scripts/helpers.py\<close>)\<close>

text \<open>
  \<^verbatim>\<open>
  class CPU:
      def __init__(self, model, product_id, vendor, corecount, corespeed):
          self.model = model
          ...
          corescore = float(corecount) / 8.0
          speedscore = corespeed / (5.30 * (10 ** 9))
          self.score = (corescore + speedscore) * 100.0 / 2.0
  \<close>
  The score is a binary64 floating-point number.  Its arithmetic is not modelled: the
  score expression of each constructor is a parameter, a function of the two
  specifications it reads (\<open>corecount\<close> and \<open>corespeed\<close> for a CPU, \<open>vram\<close> and
  \<open>corespeed\<close> for a GPU), into a type \<open>'f\<close> of scores.
\<close>

record 'f cpu =
  model :: string
  product_id :: int
  vendor :: string
  corecount :: int
  corespeed :: int
  score :: 'f

definition CPU :: "(int \<Rightarrow> int \<Rightarrow> 'f) \<Rightarrow> string \<Rightarrow> int \<Rightarrow> string \<Rightarrow> int \<Rightarrow> int \<Rightarrow> 'f cpu" where
  "CPU cpu_score model' product_id' vendor' corecount' corespeed' =
     \<lparr>model = model', product_id = product_id', vendor = vendor', corecount = corecount',
      corespeed = corespeed', score = cpu_score corecount' corespeed'\<rparr>"

record 'f gpu =
  gpu_model :: string
  gpu_vendor :: string
  vram :: int
  gpu_corespeed :: int
  codename :: string
  gpu_score :: 'f

definition GPU :: "(int \<Rightarrow> int \<Rightarrow> 'f) \<Rightarrow> string \<Rightarrow> string \<Rightarrow> int \<Rightarrow> int \<Rightarrow> string \<Rightarrow> 'f gpu" where
  "GPU gpu_score_of model' vendor' vram' corespeed' codename' =
     \<lparr>gpu_model = model', gpu_vendor = vendor', vram = vram', gpu_corespeed = corespeed',
      codename = codename', gpu_score = gpu_score_of vram' corespeed'\<rparr>"

text \<open>
  A JSON object, as \<open>json.dump\<close> writes a dictionary and \<open>json.load\<close> returns it: the
  list of its keys and values in insertion order.  \<open>d[k] = v\<close> replaces the value of a
  key that is present, in place, and appends a new key at the end.
\<close>

fun dict_set :: "'k \<Rightarrow> 'v \<Rightarrow> ('k \<times> 'v) list \<Rightarrow> ('k \<times> 'v) list" where
  "dict_set k v [] = [(k, v)]"
| "dict_set k v ((k', v') # d) = (if k' = k then (k, v) # d else (k', v') # dict_set k v d)"

record 'f cpu_specs =
  specs_product_id :: int
  specs_vendor :: string
  specs_corecount :: int
  specs_corespeed :: int
  specs_score :: 'f

record 'f gpu_specs =
  gspecs_vendor :: string
  gspecs_vram :: int
  gspecs_corespeed :: int
  gspecs_codename :: string
  gspecs_score :: 'f

type_synonym 'f cpu_json = "(string \<times> 'f cpu_specs) list"
type_synonym 'f gpu_json = "(string \<times> 'f gpu_specs) list"

text \<open>
  The file system is a map from paths to the JSON object a file holds, \<open>None\<close> for a
  file that does not exist.  Writing and reading a file are taken to succeed and to
  return the object written.
  \<^verbatim>\<open>
  def load_cpus(targetfile: str = CPU_DATABASE):
      try:
          with open(targetfile) as fh:
              raw_cpus = json.load(fh)
          cpus = []
          for (model, specs) in raw_cpus.items():
              cpus.append(CPU(model, specs["product_id"], specs["vendor"],
                              specs["corecount"], specs["corespeed"]))
          return cpus
      except FileNotFoundError:
          return []

  def save_cpus(cpus: list[CPU], targetfile: str = CPU_DATABASE):
      conv_cpus = {
          cpu.model: {"product_id": cpu.product_id, "vendor": cpu.vendor,
                      "corecount": cpu.corecount, "corespeed": cpu.corespeed,
                      "score": cpu.score} for cpu in cpus }
      with open(targetfile, "w") as fh:
          json.dump(conv_cpus, fh)
  \<close>
  \<open>load_gpus\<close> and \<open>save_gpus\<close> are the same with the fields of a GPU.
\<close>

definition CPU_DATABASE :: string where
  "CPU_DATABASE = ''comphardware/resources/cpu-database.json''"

definition GPU_DATABASE :: string where
  "GPU_DATABASE = ''comphardware/resources/gpu-database.json''"

definition load_cpus :: "(int \<Rightarrow> int \<Rightarrow> 'f) \<Rightarrow> string \<Rightarrow> (string \<rightharpoonup> 'f cpu_json) \<Rightarrow> 'f cpu list" where
  "load_cpus cpu_score targetfile fs =
     (case fs targetfile of
        None \<Rightarrow> []
      | Some raw_cpus \<Rightarrow>
          map (\<lambda>(model', specs).
                 CPU cpu_score model' (specs_product_id specs) (specs_vendor specs)
                   (specs_corecount specs) (specs_corespeed specs))
              raw_cpus)"

definition conv_cpus :: "'f cpu list \<Rightarrow> 'f cpu_json" where
  "conv_cpus cpus =
     fold (\<lambda>cpu d. dict_set (model cpu)
                      \<lparr>specs_product_id = product_id cpu, specs_vendor = vendor cpu,
                       specs_corecount = corecount cpu, specs_corespeed = corespeed cpu,
                       specs_score = score cpu\<rparr> d)
          cpus []"

definition save_cpus :: "'f cpu list \<Rightarrow> string \<Rightarrow> (string \<rightharpoonup> 'f cpu_json) \<Rightarrow> (string \<rightharpoonup> 'f cpu_json)" where
  "save_cpus cpus targetfile fs = fs(targetfile \<mapsto> conv_cpus cpus)"

definition load_gpus :: "(int \<Rightarrow> int \<Rightarrow> 'f) \<Rightarrow> string \<Rightarrow> (string \<rightharpoonup> 'f gpu_json) \<Rightarrow> 'f gpu list" where
  "load_gpus gpu_score_of targetfile fs =
     (case fs targetfile of
        None \<Rightarrow> []
      | Some raw_gpus \<Rightarrow>
          map (\<lambda>(model', specs).
                 GPU gpu_score_of model' (gspecs_vendor specs) (gspecs_vram specs)
                   (gspecs_corespeed specs) (gspecs_codename specs))
              raw_gpus)"

definition conv_gpus :: "'f gpu list \<Rightarrow> 'f gpu_json" where
  "conv_gpus gpus =
     fold (\<lambda>gpu d. dict_set (gpu_model gpu)
                      \<lparr>gspecs_vendor = gpu_vendor gpu, gspecs_vram = vram gpu,
                       gspecs_corespeed = gpu_corespeed gpu, gspecs_codename = codename gpu,
                       gspecs_score = gpu_score gpu\<rparr> d)
          gpus []"

definition save_gpus :: "'f gpu list \<Rightarrow> string \<Rightarrow> (string \<rightharpoonup> 'f gpu_json) \<Rightarrow> (string \<rightharpoonup> 'f gpu_json)" where
  "save_gpus gpus targetfile fs = fs(targetfile \<mapsto> conv_gpus gpus)"


section \<open>The scripts that write a database\<close>

text \<open>
  \<open>update-cpu-database.py\<close>; the scraper \<open>intel_ark.parse\<close> is a parameter, the list
  it returns for the old CPUs.  \<open>list.sort\<close> is stable, as \<open>sort_key\<close> is, and Python
  compares strings as lists of characters, lexicographically.
  \<^verbatim>\<open>
      old_cpus = helpers.load_cpus()
      old_cpus.sort(key=lambda cpu: cpu.product_id)
      cpus = intel_ark.parse(old_cpus)
      cpus.extend(old_cpus)
      cpus.sort(key=lambda cpu: cpu.model)
      helpers.save_cpus(cpus)
  \<close>
\<close>

definition update_cpu_database ::
  "(int \<Rightarrow> int \<Rightarrow> 'f) \<Rightarrow> ('f cpu list \<Rightarrow> 'f cpu list) \<Rightarrow> (string \<rightharpoonup> 'f cpu_json) \<Rightarrow> (string \<rightharpoonup> 'f cpu_json)" where
  "update_cpu_database cpu_score intel_ark_parse fs =
     (let old_cpus = load_cpus cpu_score CPU_DATABASE fs;
          old_cpus = sort_key product_id old_cpus;
          cpus = intel_ark_parse old_cpus;
          cpus = cpus @ old_cpus;
          cpus = sort_key model cpus
      in save_cpus cpus CPU_DATABASE fs)"

text \<open>
  \<open>update-gpu-database.py\<close>; the scraper \<open>wiki_gpu_tables.parse\<close> is a parameter.
  \<^verbatim>\<open>
      old_gpus = helpers.load_gpus()
      old_gpus.sort(key=lambda gpu: gpu.model)
      gpus = []
      for vendor, url in gpu_vendors:
          gpus.extend(wiki_gpu_tables.parse(url, old_gpus, vendor))
      gpus.extend(old_gpus)
      gpus.sort(key=lambda gpu: gpu.model)
      helpers.save_gpus(gpus)
  \<close>
\<close>

definition gpu_vendors :: "(string \<times> string) list" where
  "gpu_vendors =
     [(''nvidia'', ''https://en.wikipedia.org/wiki/List_of_Nvidia_graphics_processing_units''),
      (''amd'', ''https://en.wikipedia.org/wiki/List_of_AMD_graphics_processing_units''),
      (''intel'', ''https://en.wikipedia.org/wiki/List_of_Intel_graphics_processing_units'')]"

definition update_gpu_database ::
  "(int \<Rightarrow> int \<Rightarrow> 'f) \<Rightarrow> (string \<Rightarrow> 'f gpu list \<Rightarrow> string \<Rightarrow> 'f gpu list)
     \<Rightarrow> (string \<rightharpoonup> 'f gpu_json) \<Rightarrow> (string \<rightharpoonup> 'f gpu_json)" where
  "update_gpu_database gpu_score_of wiki_parse fs =
     (let old_gpus = load_gpus gpu_score_of GPU_DATABASE fs;
          old_gpus = sort_key gpu_model old_gpus;
          gpus = fold (\<lambda>(vendor', url) gpus. gpus @ wiki_parse url old_gpus vendor') gpu_vendors [];
          gpus = gpus @ old_gpus;
          gpus = sort_key gpu_model gpus
      in save_gpus gpus GPU_DATABASE fs)"

text \<open>
  \<open>convert-divinity76s-database.py\<close>.  \<open>convert\<close> walks the downloaded object in
  its order; the body of its \<open>try\<close> block is a parameter that yields the CPU of an
  entry, or nothing for an entry the loop skips.
  \<^verbatim>\<open>
      cpus = []
      for key, specs in source.items():
          try:
              ...
              cpus.append(helpers.CPU(model, product_id, "intel", corecount, corespeed))
          except (ValueError, KeyError):
              continue
      return cpus

      source = download(URL)
      conv = convert(source)
      helpers.save_cpus(conv)
  \<close>
\<close>

definition convert :: "(string \<Rightarrow> 'e \<Rightarrow> 'f cpu option) \<Rightarrow> (string \<times> 'e) list \<Rightarrow> 'f cpu list" where
  "convert convert_entry source =
     fold (\<lambda>(key, specs) cpus.
             case convert_entry key specs of None \<Rightarrow> cpus | Some cpu \<Rightarrow> cpus @ [cpu])
          source []"

definition convert_database ::
  "(string \<Rightarrow> 'e \<Rightarrow> 'f cpu option) \<Rightarrow> (string \<times> 'e) list \<Rightarrow> (string \<rightharpoonup> 'f cpu_json) \<Rightarrow> (string \<rightharpoonup> 'f cpu_json)" where
  "convert_database convert_entry source fs =
     (let conv = convert convert_entry source
      in save_cpus conv CPU_DATABASE fs)"


section \<open>Auxiliary notions for the proofs about the matcher\<close>

text \<open>
  \<open>csl a b i j\<close> is the length of the longest common suffix of \<open>a[..i]\<close> and
  \<open>b[..j]\<close>, the quantity the main loop tabulates row by row; \<open>valid_match\<close> says
  that a triple names equal blocks of the two sequences.
\<close>

fun csl :: "'a list \<Rightarrow> 'a list \<Rightarrow> nat \<Rightarrow> nat \<Rightarrow> nat" where
  "csl a b 0 j = (if a ! 0 = b ! j then 1 else 0)"
| "csl a b (Suc i) 0 = (if a ! Suc i = b ! 0 then 1 else 0)"
| "csl a b (Suc i) (Suc j) = (if a ! Suc i = b ! Suc j then Suc (csl a b i j) else 0)"

definition valid_match :: "'a list \<Rightarrow> 'a list \<Rightarrow> match \<Rightarrow> bool" where
  "valid_match a b m =
     (case m of (besti, bestj, bestsize) \<Rightarrow>
        besti + bestsize \<le> length a \<and> bestj + bestsize \<le> length b
        \<and> (\<forall>t<bestsize. a ! (besti + t) = b ! (bestj + t)))"

definition prev_csl :: "'a list \<Rightarrow> 'a list \<Rightarrow> nat \<Rightarrow> nat \<Rightarrow> nat" where
  "prev_csl a b i j = (if i = 0 \<or> j = 0 then 0 else csl a b (i - 1) (j - 1))"

definition cand :: "nat \<Rightarrow> (nat \<rightharpoonup> nat) \<Rightarrow> nat \<Rightarrow> match" where
  "cand i j2len j =
     (i + 1 - (j2len_get j2len j + 1), j + 1 - (j2len_get j2len j + 1), j2len_get j2len j + 1)"

definition better :: "nat \<Rightarrow> (nat \<rightharpoonup> nat) \<Rightarrow> nat \<Rightarrow> match \<Rightarrow> match" where
  "better i j2len j best = (if size_of (cand i j2len j) > size_of best then cand i j2len j else best)"

definition rowmap :: "'a list \<Rightarrow> 'a list \<Rightarrow> nat \<Rightarrow> (nat \<rightharpoonup> nat)" where
  "rowmap a b n = (case n of 0 \<Rightarrow> Map.empty
     | Suc i \<Rightarrow> (\<lambda>j. if j < length b \<and> b ! j = a ! i then Some (csl a b i j) else None))"

definition main_inv :: "'a list \<Rightarrow> 'a list \<Rightarrow> nat \<Rightarrow> (nat \<rightharpoonup> nat) \<times> match \<Rightarrow> bool" where
  "main_inv a b n st =
     (fst st = rowmap a b n \<and> valid_match a b (snd st)
      \<and> (\<forall>i<n. \<forall>j<length b. csl a b i j \<le> size_of (snd st)))"

definition match_score :: "'a list \<Rightarrow> 'a list \<Rightarrow> nat" where
  "match_score q k = size_of (find_longest_match k q)"


section \<open>Properties of the unit normaliser\<close>

lemma casefold_examples:
  "casefold ''B'' = ''b''" "casefold ''Kb'' = ''kb''" "casefold ''MiB'' = ''mib''"
  "casefold ''GB'' = ''gb''" "casefold ''gib'' = ''gib''" "casefold ''tib'' = ''tib''"
  "casefold ''kHz'' = ''khz''" "casefold ''MHz'' = ''mhz''" "casefold ''GHz'' = ''ghz''"
  "casefold ''THZ'' = ''thz''" "casefold ''unknown-unit'' = ''unknown-unit''"
  by code_simp+

text \<open>
  Claim C3.  The unit is compared after case folding.  The byte converter multiplies the
  value by 1 for \<open>b\<close>, by 1024 for \<open>kb\<close> and \<open>kib\<close>, by 1024^2 for \<open>mb\<close> and
  \<open>mib\<close>, by 1024^3 for \<open>gb\<close> and \<open>gib\<close>, by 1024^4 for \<open>tb\<close> and \<open>tib\<close>;
  the hertz converter multiplies by 10^3, 10^6, 10^9, 10^12 for \<open>khz\<close>,
  \<open>mhz\<close>, \<open>ghz\<close>, \<open>thz\<close>.  In particular 8 GB is 8 * 1024^3 bytes, and
  \<open>gib\<close> gives the same as \<open>GB\<close>.
\<close>

theorem unit_multipliers:
  "(casefold u = ''b'' \<longrightarrow> human_readable_to_bytes v u = v * 1)
   \<and> (casefold u = ''kb'' \<or> casefold u = ''kib'' \<longrightarrow> human_readable_to_bytes v u = v * 1024)
   \<and> (casefold u = ''mb'' \<or> casefold u = ''mib'' \<longrightarrow> human_readable_to_bytes v u = v * 1024 ^ 2)
   \<and> (casefold u = ''gb'' \<or> casefold u = ''gib'' \<longrightarrow> human_readable_to_bytes v u = v * 1024 ^ 3)
   \<and> (casefold u = ''tb'' \<or> casefold u = ''tib'' \<longrightarrow> human_readable_to_bytes v u = v * 1024 ^ 4)
   \<and> (casefold u = ''khz'' \<longrightarrow> human_readable_to_hertz v u = v * 10 ^ 3)
   \<and> (casefold u = ''mhz'' \<longrightarrow> human_readable_to_hertz v u = v * 10 ^ 6)
   \<and> (casefold u = ''ghz'' \<longrightarrow> human_readable_to_hertz v u = v * 10 ^ 9)
   \<and> (casefold u = ''thz'' \<longrightarrow> human_readable_to_hertz v u = v * 10 ^ 12)
   \<and> human_readable_to_bytes 8 ''GB'' = 8 * 1024 ^ 3
   \<and> human_readable_to_bytes 8 ''gib'' = human_readable_to_bytes 8 ''GB''"
  by (simp add: human_readable_to_bytes_def human_readable_to_hertz_def casefold_examples)

theorem unit_multipliers_witness:
  "casefold ''B'' = ''b'' \<and> human_readable_to_bytes 5 ''B'' = 5
   \<and> casefold ''Kb'' = ''kb'' \<and> human_readable_to_bytes 5 ''Kb'' = 5120
   \<and> casefold ''MiB'' = ''mib'' \<and> human_readable_to_bytes 5 ''MiB'' = 5242880
   \<and> casefold ''GB'' = ''gb'' \<and> human_readable_to_bytes 8 ''GB'' = 8589934592
   \<and> casefold ''tib'' = ''tib'' \<and> human_readable_to_bytes 1 ''tib'' = 1099511627776
   \<and> casefold ''kHz'' = ''khz'' \<and> human_readable_to_hertz 7 ''kHz'' = 7000
   \<and> casefold ''MHz'' = ''mhz'' \<and> human_readable_to_hertz 7 ''MHz'' = 7000000
   \<and> casefold ''GHz'' = ''ghz'' \<and> human_readable_to_hertz 4 ''GHz'' = 4000000000
   \<and> casefold ''THZ'' = ''thz'' \<and> human_readable_to_hertz 2 ''THZ'' = 2000000000000"
  using unit_multipliers [of "''B''" 5] unit_multipliers [of "''Kb''" 5]
    unit_multipliers [of "''MiB''" 5] unit_multipliers [of "''GB''" 8]
    unit_multipliers [of "''tib''" 1] unit_multipliers [of "''kHz''" 7]
    unit_multipliers [of "''MHz''" 7] unit_multipliers [of "''GHz''" 4]
    unit_multipliers [of "''THZ''" 2]
  by (simp add: casefold_examples)

text \<open>
  Claim C4.  A unit that, once folded, is none of the names a converter compares with
  leaves the value unchanged.  Both converters are total functions into the integers:
  the fallback branch returns, it does not raise.
\<close>

theorem unknown_unit_passthrough:
  "(casefold u \<notin> byte_units \<longrightarrow> human_readable_to_bytes v u = v)
   \<and> (casefold u \<notin> hertz_units \<longrightarrow> human_readable_to_hertz v u = v)"
  by (simp add: human_readable_to_bytes_def human_readable_to_hertz_def
      byte_units_def hertz_units_def)

theorem unknown_unit_passthrough_witness:
  "casefold ''unknown-unit'' \<notin> byte_units
   \<and> human_readable_to_bytes 42 ''unknown-unit'' = 42
   \<and> casefold ''unknown-unit'' \<notin> hertz_units
   \<and> human_readable_to_hertz 42 ''unknown-unit'' = 42"
  using unknown_unit_passthrough [of "''unknown-unit''" 42]
  by (simp add: byte_units_def hertz_units_def casefold_examples)

text \<open>
  Claim C10.  For every unit, recognised or not, each converter is multiplication by
  its value at 1; hence it maps 0 to 0 and is monotone in the value.
\<close>

theorem converters_linear:
  "human_readable_to_bytes v u = v * human_readable_to_bytes 1 u
   \<and> human_readable_to_hertz v u = v * human_readable_to_hertz 1 u
   \<and> human_readable_to_bytes 0 u = 0
   \<and> human_readable_to_hertz 0 u = 0
   \<and> (v \<le> w \<longrightarrow> human_readable_to_bytes v u \<le> human_readable_to_bytes w u)
   \<and> (v \<le> w \<longrightarrow> human_readable_to_hertz v u \<le> human_readable_to_hertz w u)"
  by (simp add: human_readable_to_bytes_def human_readable_to_hertz_def Let_def)

theorem converters_linear_witness:
  "(3::int) \<le> 8
   \<and> human_readable_to_bytes 3 ''GB'' \<le> human_readable_to_bytes 8 ''GB''
   \<and> human_readable_to_hertz 3 ''GHz'' \<le> human_readable_to_hertz 8 ''GHz''
   \<and> human_readable_to_bytes 8 ''GB'' = 8 * human_readable_to_bytes 1 ''GB''"
  using converters_linear [of 3 "''GB''" 8] converters_linear [of 3 "''GHz''" 8]
    converters_linear [of 8 "''GB''" 8]
  by simp

section \<open>Correctness of the longest match for short queries\<close>

subsection \<open>The index of the second sequence\<close>

text \<open>
  The index lists, for each element, its positions in increasing order; a query of fewer
  than 200 elements keeps all of them.
\<close>

lemma fold_b2j:
  "fold (\<lambda>(i, elt) b2j. b2j(elt := b2j elt @ [i])) ps f c
     = f c @ map fst [p \<leftarrow> ps. snd p = c]"
  by (induction ps arbitrary: f) (auto split: prod.splits)

lemma b2j_all_code [code]: "b2j_all b c = map fst [p \<leftarrow> enumerate 0 b. snd p = c]"
  by (simp add: b2j_all_def fold_b2j)

lemma enumerate_as_map: "enumerate 0 b = map (\<lambda>j. (j, b ! j)) [0..<length b]"
  by (rule nth_equalityI) (simp_all add: nth_enumerate_eq)

lemma b2j_all_eq: "b2j_all b c = [j \<leftarrow> [0..<length b]. b ! j = c]"
  by (simp add: b2j_all_code enumerate_as_map filter_map comp_def)

lemma chain_b_short: "length b < 200 \<Longrightarrow> chain_b b = b2j_all b"
  by (simp add: chain_b_def)

subsection \<open>Common suffixes and the longest common substring\<close>

text \<open>
  \<open>csl a b i j\<close> obeys the recurrence of the classic table, names a valid match, and
  bounds every common substring from above.
\<close>

lemma csl_eq: "csl a b i j = (if a ! i = b ! j then Suc (prev_csl a b i j) else 0)"
  by (cases i; cases j) (simp_all add: prev_csl_def)

lemma csl_le: "csl a b i j \<le> Suc i \<and> csl a b i j \<le> Suc j"
  by (induction a b i j rule: csl.induct) auto

lemma csl_agree: "t < csl a b i j \<Longrightarrow> a ! (i - t) = b ! (j - t)"
proof (induction a b i j arbitrary: t rule: csl.induct)
  case (3 a b i j)
  then show ?case by (cases t) (auto split: if_splits)
qed (auto split: if_splits)

lemma csl_valid:
  assumes "i < length a" "j < length b"
  shows "valid_match a b (i + 1 - csl a b i j, j + 1 - csl a b i j, csl a b i j)"
proof -
  let ?k = "csl a b i j"
  have le: "?k \<le> Suc i" "?k \<le> Suc j" using csl_le [of a b i j] by auto
  have "a ! (i + 1 - ?k + t) = b ! (j + 1 - ?k + t)" if "t < ?k" for t
  proof -
    have "?k - 1 - t < ?k" using that by simp
    from csl_agree [OF this] have "a ! (i - (?k - 1 - t)) = b ! (j - (?k - 1 - t))" .
    moreover have "i - (?k - 1 - t) = i + 1 - ?k + t" "j - (?k - 1 - t) = j + 1 - ?k + t"
      using that le by auto
    ultimately show ?thesis by (simp only:)
  qed
  then show ?thesis using assms le by (auto simp: valid_match_def)
qed

lemma csl_lower:
  "0 < n \<Longrightarrow> (\<forall>t<n. a ! (p + t) = b ! (q + t)) \<Longrightarrow> n \<le> csl a b (p + n - 1) (q + n - 1)"
proof (induction n)
  case 0
  then show ?case by simp
next
  case (Suc n)
  show ?case
  proof (cases "n = 0")
    case True
    with Suc.prems show ?thesis by (simp add: csl_eq)
  next
    case False
    then have "n \<le> csl a b (p + n - 1) (q + n - 1)" using Suc by simp
    moreover have "a ! (p + n) = b ! (q + n)" using Suc.prems by simp
    ultimately show ?thesis using False by (simp add: csl_eq prev_csl_def)
  qed
qed

lemma finite_common: "finite {w. sublist w a \<and> sublist w b}"
  by (rule finite_subset [of _ "set (sublists a)"]) auto

lemma lcs_length_ge: "sublist w a \<Longrightarrow> sublist w b \<Longrightarrow> length w \<le> lcs_length a b"
  unfolding lcs_length_def by (rule Max_ge) (auto simp: finite_common)

lemma lcs_length_ex: "\<exists>w. sublist w a \<and> sublist w b \<and> length w = lcs_length a b"
proof -
  have "[] \<in> {w. sublist w a \<and> sublist w b}" by simp
  then have "length ` {w. sublist w a \<and> sublist w b} \<noteq> {}" by blast
  then have "lcs_length a b \<in> length ` {w. sublist w a \<and> sublist w b}"
    unfolding lcs_length_def by (intro Max_in) (auto simp: finite_common)
  then show ?thesis by auto
qed

lemma valid_match_le_lcs:
  assumes "valid_match a b (bi, bj, k)"
  shows "k \<le> lcs_length a b"
proof -
  from assms have *: "bi + k \<le> length a" "bj + k \<le> length b"
    "\<forall>t<k. a ! (bi + t) = b ! (bj + t)" by (auto simp: valid_match_def)
  let ?w = "take k (drop bi a)"
  have "?w = take k (drop bj b)"
    using * by (intro nth_equalityI) auto
  then have "sublist ?w b" by (metis sublist_drop sublist_order.order.trans sublist_take)
  moreover have "sublist ?w a" by (metis sublist_drop sublist_order.order.trans sublist_take)
  moreover have "length ?w = k" using * by simp
  ultimately show ?thesis using lcs_length_ge by metis
qed

lemma lcs_le_csl_bound:
  assumes "\<forall>i<length a. \<forall>j<length b. csl a b i j \<le> K"
  shows "lcs_length a b \<le> K"
proof -
  obtain w where w: "sublist w a" "sublist w b" "length w = lcs_length a b"
    using lcs_length_ex by blast
  show ?thesis
  proof (cases "w = []")
    case True
    with w show ?thesis by simp
  next
    case False
    from w obtain as1 as2 bs1 bs2 where ab: "a = as1 @ w @ as2" "b = bs1 @ w @ bs2"
      by (auto simp: sublist_def)
    let ?n = "length w" let ?p = "length as1" let ?q = "length bs1"
    have pos: "0 < ?n" using False by simp
    have "\<forall>t<?n. a ! (?p + t) = b ! (?q + t)"
      by (simp add: ab nth_append)
    from csl_lower [OF pos this] have "?n \<le> csl a b (?p + ?n - 1) (?q + ?n - 1)" .
    moreover have "length a = ?p + ?n + length as2" "length b = ?q + ?n + length bs2"
      by (simp_all add: ab)
    then have "?p + ?n - 1 < length a" "?q + ?n - 1 < length b"
      using pos by linarith+
    ultimately show ?thesis using assms w(3) by (metis le_trans)
  qed
qed

subsection \<open>The inner loop\<close>

text \<open>
  One pass over the positions \<open>js\<close> of \<open>a[i]\<close> in \<open>b\<close>: the new row holds
  \<open>j2len.get(j-1, 0) + 1\<close> at each of them, the best match is the old one or one of
  the candidates, and it is at least as long as each of them.
\<close>

lemma size_of_cand: "size_of (cand i j2len j) = j2len_get j2len j + 1"
  by (simp add: cand_def size_of_def)

lemma inner_loop_Cons:
  "inner_loop i j2len (j # js) (m, best) =
     inner_loop i j2len js (m(j \<mapsto> j2len_get j2len j + 1), better i j2len j best)"
  by (cases best) (simp add: Let_def size_of_def better_def cand_def)

lemma inner_loop_fst:
  "fst (inner_loop i j2len js (m, best))
     = (\<lambda>j. if j \<in> set js then Some (j2len_get j2len j + 1) else m j)"
proof (induction js arbitrary: m best)
  case Nil
  then show ?case by simp
next
  case (Cons j js)
  show ?case
    unfolding inner_loop_Cons Cons.IH by (rule ext) simp
qed

lemma inner_loop_candidates:
  "snd (inner_loop i j2len js (m, best)) \<in> insert best (cand i j2len ` set js)"
proof (induction js arbitrary: m best)
  case Nil
  then show ?case by simp
next
  case (Cons j js)
  have "snd (inner_loop i j2len js (m(j \<mapsto> j2len_get j2len j + 1), better i j2len j best))
          \<in> insert (better i j2len j best) (cand i j2len ` set js)"
    by (rule Cons.IH)
  moreover have "insert (better i j2len j best) (cand i j2len ` set js)
          \<subseteq> insert best (cand i j2len ` set (j # js))"
    by (auto simp: better_def)
  ultimately show ?case unfolding inner_loop_Cons by (rule subsetD [rotated])
qed

lemma better_ge: "size_of best \<le> size_of (better i j2len j best)"
  "size_of (cand i j2len j) \<le> size_of (better i j2len j best)"
  by (simp_all add: better_def)

lemma inner_loop_mono:
  "size_of best \<le> size_of (snd (inner_loop i j2len js (m, best)))"
proof (induction js arbitrary: m best)
  case Nil
  then show ?case by simp
next
  case (Cons j js)
  have "size_of best \<le> size_of (better i j2len j best)" by (rule better_ge)
  also have "\<dots> \<le> size_of (snd (inner_loop i j2len js
       (m(j \<mapsto> j2len_get j2len j + 1), better i j2len j best)))"
    by (rule Cons.IH)
  finally show ?case unfolding inner_loop_Cons .
qed

lemma inner_loop_covers:
  "j \<in> set js \<Longrightarrow> size_of (cand i j2len j) \<le> size_of (snd (inner_loop i j2len js (m, best)))"
proof (induction js arbitrary: m best)
  case Nil
  then show ?case by simp
next
  case (Cons j' js)
  show ?case
  proof (cases "j \<in> set js")
    case True
    then show ?thesis unfolding inner_loop_Cons by (rule Cons.IH)
  next
    case False
    with Cons.prems have jj: "j = j'" by simp
    have "size_of (cand i j2len j') \<le> size_of (better i j2len j' best)" by (rule better_ge)
    also have "\<dots> \<le> size_of (snd (inner_loop i j2len js
         (m(j' \<mapsto> j2len_get j2len j' + 1), better i j2len j' best)))"
      by (rule inner_loop_mono)
    finally show ?thesis unfolding inner_loop_Cons jj .
  qed
qed

subsection \<open>The main loop\<close>

text \<open>
  After the rows below \<open>n\<close>, the dictionary is row \<open>n - 1\<close> of the table, the best
  match is valid, and it is at least as long as every entry of the rows seen.
\<close>

lemma main_loop_append:
  "main_loop b2j a (xs @ ys) st = main_loop b2j a ys (main_loop b2j a xs st)"
proof (induction xs arbitrary: st)
  case Nil
  then show ?case by simp
next
  case (Cons x xs)
  obtain j2len best where st: "st = (j2len, best)" by (cases st)
  show ?case unfolding st using Cons.IH by simp
qed

lemma j2len_get_rowmap:
  "j < length b \<Longrightarrow> j2len_get (rowmap a b n) j = prev_csl a b n j"
  by (cases n; cases j) (auto simp: j2len_get_def rowmap_def prev_csl_def csl_eq)

lemma main_step:
  assumes inv: "main_inv a b n (j2len, best)" and n: "n < length a"
  shows "main_inv a b (Suc n) (inner_loop n j2len (b2j_all b (a ! n)) (Map.empty, best))"
proof -
  let ?js = "b2j_all b (a ! n)"
  let ?r = "inner_loop n j2len ?js (Map.empty, best)"
  have j2len: "j2len = rowmap a b n" and vb: "valid_match a b best"
    and cov: "\<forall>i<n. \<forall>j<length b. csl a b i j \<le> size_of best"
    using inv by (auto simp: main_inv_def)
  have js: "set ?js = {j. j < length b \<and> b ! j = a ! n}"
    by (auto simp: b2j_all_eq)
  have k: "j2len_get j2len j + 1 = csl a b n j" if "j \<in> set ?js" for j
    using that js by (simp add: j2len j2len_get_rowmap csl_eq)
  have c: "cand n j2len j = (n + 1 - csl a b n j, j + 1 - csl a b n j, csl a b n j)"
    if "j \<in> set ?js" for j
    unfolding cand_def k [OF that] ..
  have 1: "fst ?r = rowmap a b (Suc n)"
    unfolding inner_loop_fst
  proof
    fix j
    show "(if j \<in> set ?js then Some (j2len_get j2len j + 1) else Map.empty j) = rowmap a b (Suc n) j"
    proof (cases "j \<in> set ?js")
      case True
      then show ?thesis using k [OF True] js by (simp add: rowmap_def)
    next
      case False
      then have "\<not> (j < length b \<and> b ! j = a ! n)" using js by simp
      then show ?thesis using False by (simp add: rowmap_def)
    qed
  qed
  have 2: "valid_match a b (snd ?r)"
  proof -
    from inner_loop_candidates [of n j2len ?js Map.empty best]
    consider "snd ?r = best" | j where "j \<in> set ?js" "snd ?r = cand n j2len j"
      by blast
    then show ?thesis
    proof cases
      case 1
      then show ?thesis using vb by simp
    next
      case (2 j)
      then have "j < length b" using js by simp
      from csl_valid [OF n this] show ?thesis unfolding 2(2) c [OF 2(1)] .
    qed
  qed
  have 3: "csl a b i j \<le> size_of (snd ?r)" if "i < Suc n" "j < length b" for i j
  proof (cases "i < n")
    case True
    then have "csl a b i j \<le> size_of best" using cov that by simp
    also have "\<dots> \<le> size_of (snd ?r)" by (rule inner_loop_mono)
    finally show ?thesis .
  next
    case False
    then have i: "i = n" using that by simp
    show ?thesis
    proof (cases "b ! j = a ! n")
      case True
      then have jin: "j \<in> set ?js" using that js by simp
      have "csl a b n j = size_of (cand n j2len j)"
        unfolding size_of_cand k [OF jin] ..
      also have "\<dots> \<le> size_of (snd ?r)" using jin by (rule inner_loop_covers)
      finally show ?thesis unfolding i .
    next
      case False
      then show ?thesis by (simp add: i csl_eq)
    qed
  qed
  show ?thesis unfolding main_inv_def using 1 2 3 by blast
qed

lemma main_loop_inv:
  "n \<le> length a \<Longrightarrow> main_inv a b n (main_loop (b2j_all b) a [0..<n] (Map.empty, (0, 0, 0)))"
proof (induction n)
  case 0
  then show ?case by (simp add: main_inv_def rowmap_def valid_match_def)
next
  case (Suc n)
  obtain j2len best where st: "main_loop (b2j_all b) a [0..<n] (Map.empty, (0, 0, 0)) = (j2len, best)"
    by (cases "main_loop (b2j_all b) a [0..<n] (Map.empty, (0, 0, 0))")
  with Suc have "main_inv a b n (j2len, best)" "n < length a" by auto
  from main_step [OF this] show ?case by (simp add: main_loop_append st)
qed

subsection \<open>Extending the match\<close>

lemma extend_left_step:
  "besti > 0 \<and> bestj > 0 \<and> a ! (besti - 1) = b ! (bestj - 1) \<Longrightarrow>
     extend_left a b (besti, bestj, bestsize) = extend_left a b (besti - 1, bestj - 1, bestsize + 1)"
  by (subst extend_left.simps) simp

lemma extend_left_stop:
  "\<not> (besti > 0 \<and> bestj > 0 \<and> a ! (besti - 1) = b ! (bestj - 1)) \<Longrightarrow>
     extend_left a b (besti, bestj, bestsize) = (besti, bestj, bestsize)"
  by (subst extend_left.simps) auto

lemma extend_right_step:
  "besti + bestsize < length a \<and> bestj + bestsize < length b
     \<and> a ! (besti + bestsize) = b ! (bestj + bestsize) \<Longrightarrow>
     extend_right a b (besti, bestj, bestsize) = extend_right a b (besti, bestj, bestsize + 1)"
  by (subst extend_right.simps) simp

lemma extend_right_stop:
  "\<not> (besti + bestsize < length a \<and> bestj + bestsize < length b
     \<and> a ! (besti + bestsize) = b ! (bestj + bestsize)) \<Longrightarrow>
     extend_right a b (besti, bestj, bestsize) = (besti, bestj, bestsize)"
  by (subst extend_right.simps) auto

lemma valid_match_left:
  assumes "valid_match a b (besti, bestj, bestsize)"
    and "besti > 0" "bestj > 0" "a ! (besti - 1) = b ! (bestj - 1)"
  shows "valid_match a b (besti - 1, bestj - 1, bestsize + 1)"
proof -
  from assms(1) have *: "besti + bestsize \<le> length a" "bestj + bestsize \<le> length b"
    "\<And>t. t < bestsize \<Longrightarrow> a ! (besti + t) = b ! (bestj + t)"
    by (auto simp: valid_match_def)
  have "a ! (besti - 1 + t) = b ! (bestj - 1 + t)" if "t < bestsize + 1" for t
  proof (cases t)
    case 0
    then show ?thesis using assms(4) by simp
  next
    case (Suc t')
    then have "t' < bestsize" using that by simp
    from *(3) [OF this] show ?thesis using assms(2,3) Suc by simp
  qed
  moreover have "besti - 1 + (bestsize + 1) \<le> length a" "bestj - 1 + (bestsize + 1) \<le> length b"
    using * assms(2,3) by simp_all
  ultimately show ?thesis unfolding valid_match_def by simp
qed

lemma valid_match_right:
  assumes "valid_match a b (besti, bestj, bestsize)"
    and "besti + bestsize < length a" "bestj + bestsize < length b"
    and "a ! (besti + bestsize) = b ! (bestj + bestsize)"
  shows "valid_match a b (besti, bestj, bestsize + 1)"
  using assms by (auto simp: valid_match_def less_Suc_eq)

lemma extend_left_valid:
  "valid_match a b m \<Longrightarrow> valid_match a b (extend_left a b m)"
proof (induction a b m rule: extend_left.induct)
  case (1 a b besti bestj bestsize)
  show ?case
  proof (cases "besti > 0 \<and> bestj > 0 \<and> a ! (besti - 1) = b ! (bestj - 1)")
    case True
    then have "valid_match a b (besti - 1, bestj - 1, bestsize + 1)"
      using valid_match_left [OF "1.prems"] by simp
    from "1.IH" [OF True this] show ?thesis by (simp only: extend_left_step [OF True])
  next
    case False
    then show ?thesis using "1.prems" by (simp only: extend_left_stop [OF False])
  qed
qed

lemma extend_right_valid:
  "valid_match a b m \<Longrightarrow> valid_match a b (extend_right a b m)"
proof (induction a b m rule: extend_right.induct)
  case (1 a b besti bestj bestsize)
  show ?case
  proof (cases "besti + bestsize < length a \<and> bestj + bestsize < length b
         \<and> a ! (besti + bestsize) = b ! (bestj + bestsize)")
    case True
    then have "valid_match a b (besti, bestj, bestsize + 1)"
      using valid_match_right [OF "1.prems"] by simp
    from "1.IH" [OF True this] show ?thesis by (simp only: extend_right_step [OF True])
  next
    case False
    then show ?thesis using "1.prems" by (simp only: extend_right_stop [OF False])
  qed
qed

lemma extend_left_mono: "size_of m \<le> size_of (extend_left a b m)"
proof (induction a b m rule: extend_left.induct)
  case (1 a b besti bestj bestsize)
  show ?case
  proof (cases "besti > 0 \<and> bestj > 0 \<and> a ! (besti - 1) = b ! (bestj - 1)")
    case True
    from "1.IH" [OF True] show ?thesis
      by (simp add: extend_left_step [OF True] size_of_def)
  next
    case False
    then show ?thesis by (simp only: extend_left_stop [OF False])
  qed
qed

lemma extend_right_mono: "size_of m \<le> size_of (extend_right a b m)"
proof (induction a b m rule: extend_right.induct)
  case (1 a b besti bestj bestsize)
  show ?case
  proof (cases "besti + bestsize < length a \<and> bestj + bestsize < length b
         \<and> a ! (besti + bestsize) = b ! (bestj + bestsize)")
    case True
    from "1.IH" [OF True] show ?thesis
      by (simp add: extend_right_step [OF True] size_of_def)
  next
    case False
    then show ?thesis by (simp only: extend_right_stop [OF False])
  qed
qed

text \<open>
  For a query of fewer than 200 elements the size of the match is the length of the
  longest common substring.
\<close>

lemma find_longest_match_lcs:
  assumes "length b < 200"
  shows "size_of (find_longest_match a b) = lcs_length a b"
proof -
  define st where "st = main_loop (b2j_all b) a [0..<length a] (Map.empty, (0, 0, 0))"
  have inv: "main_inv a b (length a) st"
    unfolding st_def by (rule main_loop_inv) simp
  define r where "r = extend_right a b (extend_left a b (snd st))"
  have r: "find_longest_match a b = r"
    by (simp add: find_longest_match_def chain_b_short [OF assms] st_def r_def)
  have "valid_match a b (snd st)" using inv by (simp add: main_inv_def)
  then have "valid_match a b r"
    unfolding r_def by (intro extend_left_valid extend_right_valid)
  then have "valid_match a b (fst r, fst (snd r), size_of r)" by (simp add: size_of_def)
  then have up: "size_of r \<le> lcs_length a b" by (rule valid_match_le_lcs)
  have "lcs_length a b \<le> size_of (snd st)"
    using inv by (intro lcs_le_csl_bound) (simp add: main_inv_def)
  also have "\<dots> \<le> size_of (extend_left a b (snd st))" by (rule extend_left_mono)
  also have "\<dots> \<le> size_of r" unfolding r_def by (rule extend_right_mono)
  finally show ?thesis using up r by simp
qed

subsection \<open>The loop over the keys\<close>

lemma lcs_length_le_left: "lcs_length a b \<le> length a"
  using lcs_length_ex [of a b] sublist_length_le by metis

lemma lcs_length_code [code]:
  "lcs_length a b = Max (set (map length [w \<leftarrow> sublists a. w \<in> set (sublists b)]))"
proof -
  have "set (map length [w \<leftarrow> sublists a. w \<in> set (sublists b)])
      = length ` {w. sublist w a \<and> sublist w b}"
    by auto
  then show ?thesis by (simp only: lcs_length_def)
qed

lemma find_loop_Cons:
  "find_loop q (k # ks) (cur, ex) =
     find_loop q ks (if match_score q k > cur then (match_score q k, Some k) else (cur, ex))"
  by (simp add: match_score_def Let_def)

lemma find_loop_append:
  "find_loop q (xs @ ys) st = find_loop q ys (find_loop q xs st)"
proof (induction xs arbitrary: st)
  case Nil
  then show ?case by simp
next
  case (Cons x xs)
  obtain cur ex where st: "st = (cur, ex)" by (cases st)
  show ?case unfolding st by (simp only: append_Cons find_loop_Cons Cons.IH)
qed

lemma find_loop_unchanged:
  "\<forall>k\<in>set ks. match_score q k \<le> cur \<Longrightarrow> find_loop q ks (cur, ex) = (cur, ex)"
  by (induction ks) (simp_all add: find_loop_Cons del: find_loop.simps(2))

lemma find_loop_below:
  "\<forall>k\<in>set ks. match_score q k < s \<Longrightarrow> cur < s \<Longrightarrow> fst (find_loop q ks (cur, ex)) < s"
proof (induction ks arbitrary: cur ex)
  case Nil
  then show ?case by simp
next
  case (Cons k ks)
  show ?case
  proof (cases "match_score q k > cur")
    case True
    have "fst (find_loop q ks (match_score q k, Some k)) < s"
      using Cons.prems by (intro Cons.IH) simp_all
    then show ?thesis using True by (simp only: find_loop_Cons if_True)
  next
    case False
    have "fst (find_loop q ks (cur, ex)) < s"
      using Cons.prems by (intro Cons.IH) simp_all
    then show ?thesis using False by (simp only: find_loop_Cons if_False)
  qed
qed

lemma find_loop_winner:
  assumes pre: "\<forall>k'\<in>set pre. match_score q k' < match_score q k"
    and post: "\<forall>k'\<in>set post. match_score q k' \<le> match_score q k"
    and cur: "cur < match_score q k"
  shows "find_loop q (pre @ k # post) (cur, ex) = (match_score q k, Some k)"
proof -
  obtain cur' ex' where st: "find_loop q pre (cur, ex) = (cur', ex')"
    by (cases "find_loop q pre (cur, ex)")
  have "cur' < match_score q k" using find_loop_below [OF pre cur, of ex] st by simp
  then have "find_loop q (k # post) (cur', ex') = find_loop q post (match_score q k, Some k)"
    by (simp only: find_loop_Cons if_True)
  also have "\<dots> = (match_score q k, Some k)" using post by (rule find_loop_unchanged)
  finally show ?thesis by (simp only: find_loop_append st)
qed

lemma find_loop_result:
  "snd (find_loop q ks (cur, ex)) \<in> insert ex (Some ` set ks)"
proof (induction ks arbitrary: cur ex)
  case Nil
  then show ?case by simp
next
  case (Cons k ks)
  show ?case
  proof (cases "match_score q k > cur")
    case True
    have "snd (find_loop q ks (match_score q k, Some k)) \<in> insert (Some k) (Some ` set ks)"
      by (rule Cons.IH)
    then show ?thesis using True by (simp only: find_loop_Cons if_True) auto
  next
    case False
    have "snd (find_loop q ks (cur, ex)) \<in> insert ex (Some ` set ks)"
      by (rule Cons.IH)
    then show ?thesis using False by (simp only: find_loop_Cons if_False) auto
  qed
qed

lemma match_score_lcs: "length q < 200 \<Longrightarrow> match_score q k = lcs_length k q"
  by (simp add: match_score_def find_longest_match_lcs)

lemma first_best_key_exists:
  assumes "keys \<noteq> []"
  shows "\<exists>k. first_best_key keys q = Some k"
proof -
  let ?S = "(\<lambda>k. lcs_length k q) ` set keys"
  have fin: "finite ?S" and ne: "?S \<noteq> {}" using assms by simp_all
  from Max_in [OF fin ne] obtain k where k1: "k \<in> set keys" "lcs_length k q = Max ?S"
    by auto
  have "lcs_length k' q \<le> lcs_length k q" if "k' \<in> set keys" for k'
    unfolding k1(2) using that by (intro Max_ge) simp_all
  with k1(1) have k: "k \<in> set keys" "\<forall>k'\<in>set keys. lcs_length k' q \<le> lcs_length k q"
    by simp_all
  then have "find (\<lambda>k. \<forall>k'\<in>set keys. lcs_length k' q \<le> lcs_length k q) keys \<noteq> None"
    by (auto simp: find_None_iff)
  then show ?thesis by (auto simp: first_best_key_def)
qed

lemma first_best_key_split:
  assumes "first_best_key keys q = Some k"
  shows "\<exists>pre post. keys = pre @ k # post
           \<and> (\<forall>k'\<in>set pre. lcs_length k' q < lcs_length k q)
           \<and> (\<forall>k'\<in>set post. lcs_length k' q \<le> lcs_length k q)"
proof -
  let ?P = "\<lambda>k. \<forall>k'\<in>set keys. lcs_length k' q \<le> lcs_length k q"
  from assms obtain i where i: "i < length keys" "?P (keys ! i)" "k = keys ! i"
    "\<forall>j<i. \<not> ?P (keys ! j)"
    by (auto simp: first_best_key_def find_Some_iff)
  have keys: "keys = take i keys @ k # drop (Suc i) keys"
    using i by (simp add: id_take_nth_drop)
  have "lcs_length k' q < lcs_length k q" if "k' \<in> set (take i keys)" for k'
  proof -
    from that obtain j where j: "j < i" "k' = keys ! j"
      using i(1) by (auto simp: in_set_conv_nth)
    with i(4) have "\<not> ?P k'" by simp
    then obtain k'' where "k'' \<in> set keys" "lcs_length k' q < lcs_length k'' q"
      by (auto simp: not_le)
    with i(2,3) show ?thesis by (metis le_trans not_le)
  qed
  moreover have "lcs_length k' q \<le> lcs_length k q" if "k' \<in> set (drop (Suc i) keys)" for k'
    using that i(2,3) by (meson in_set_dropD)
  ultimately show ?thesis using keys by blast
qed

lemma find_by_model_short:
  assumes "length q < 200"
  shows "find_by_model cls db q =
     Inr (if \<exists>k\<in>set (map fst db). 0 < lcs_length k q then best_record db q else None)"
proof (cases "\<exists>k\<in>set (map fst db). 0 < lcs_length k q")
  case False
  then have "\<forall>k\<in>set (map fst db). match_score q k \<le> 0"
    by (simp add: match_score_lcs [OF assms])
  then have "find_loop q (map fst db) (0, None) = (0, None)"
    by (rule find_loop_unchanged)
  then show ?thesis using False by (simp add: find_by_model_def)
next
  case True
  then have ne: "map fst db \<noteq> []" by auto
  from first_best_key_exists [OF ne] obtain k where k: "first_best_key (map fst db) q = Some k"
    by blast
  from first_best_key_split [OF k] obtain pre post where sp: "map fst db = pre @ k # post"
    "\<forall>k'\<in>set pre. lcs_length k' q < lcs_length k q"
    "\<forall>k'\<in>set post. lcs_length k' q \<le> lcs_length k q"
    by blast
  have kin: "k \<in> set (map fst db)" by (simp add: sp(1))
  have "\<forall>k'\<in>set (map fst db). lcs_length k' q \<le> lcs_length k q"
    using sp by (auto simp: less_imp_le)
  with True have pos: "0 < lcs_length k q" by (meson le_trans not_le)
  have "find_loop q (pre @ k # post) (0, None) = (match_score q k, Some k)"
    using sp(2,3) pos by (intro find_loop_winner) (simp_all add: match_score_lcs [OF assms])
  then have fl: "snd (find_loop q (map fst db) (0, None)) = Some k" by (simp add: sp(1))
  from kin obtain r where r: "map_of db k = Some r"
    by (metis list.set_map map_of_eq_None_iff not_None_eq)
  have "find_by_model cls db q = Inr (Some r)"
    by (simp add: find_by_model_def fl r)
  moreover have "best_record db q = Some r" by (simp add: best_record_def k r)
  ultimately show ?thesis using True by simp
qed

lemma find_by_model_never_raises:
  "find_by_model cls db q = Inr None
   \<or> (\<exists>k r. (k, r) \<in> set db \<and> map_of db k = Some r \<and> find_by_model cls db q = Inr (Some r))"
proof (cases "snd (find_loop q (map fst db) (0, None))")
  case None
  then show ?thesis by (simp add: find_by_model_def)
next
  case (Some k)
  with find_loop_result [of q "map fst db" 0 None] have "k \<in> set (map fst db)" by auto
  then obtain r where r: "map_of db k = Some r"
    by (metis list.set_map map_of_eq_None_iff not_None_eq)
  then have "(k, r) \<in> set db" by (rule map_of_SomeD)
  then show ?thesis using Some r by (auto simp: find_by_model_def)
qed

section \<open>Properties of the fuzzy model matcher\<close>

lemma long_query_split: "long_query = [CHR ''b''] @ ''aaa'' @ replicate 197 (CHR ''a'')"
  unfolding long_query_def by code_simp

lemma long_query_matches:
  "find_longest_match ''aaa'' long_query = (0, 0, 0)"
  "find_longest_match ''b'' long_query = (0, 0, 1)"
  unfolding long_query_def by code_simp+

lemma long_query_lcs:
  "lcs_length ''aaa'' long_query = 3" "lcs_length ''b'' long_query \<le> 1"
proof -
  have "sublist ''aaa'' long_query"
    unfolding sublist_def using long_query_split by blast
  then have "3 \<le> lcs_length ''aaa'' long_query"
    using lcs_length_ge [of "''aaa''" "''aaa''" long_query] by simp
  moreover have "lcs_length ''aaa'' long_query \<le> 3"
    using lcs_length_le_left [of "''aaa''" long_query] by simp
  ultimately show "lcs_length ''aaa'' long_query = 3" by simp
  show "lcs_length ''b'' long_query \<le> 1"
    using lcs_length_le_left [of "''b''" long_query] by simp
qed

lemma long_query_found:
  "find_by_model cls [(''b'', r1), (''aaa'', r2)] long_query = Inr (Some r1)"
  "find_by_model cls [(''aaa'', r2)] long_query = Inr None"
  by (simp_all add: find_by_model_def long_query_matches size_of_def)

lemma long_query_best: "best_record [(''b'', r1), (''aaa'', r2)] long_query = Some r2"
  using long_query_lcs by (simp add: best_record_def first_best_key_def)

lemma short_example:
  "find_by_model cls [(''a'', r)] ''b'' = Inr None" "best_record [(''a'', r)] ''b'' = Some r"
proof -
  have "find_longest_match ''a'' ''b'' = (0, 0, 0)" by code_simp
  then show "find_by_model cls [(''a'', r)] ''b'' = Inr None"
    by (simp add: find_by_model_def size_of_def)
  show "best_record [(''a'', r)] ''b'' = Some r"
    by (simp add: best_record_def first_best_key_def)
qed

lemma tie_lcs:
  "lcs_length ''i5-760'' ''intel i5-76 cpu'' = 5" "lcs_length ''i5-7600'' ''intel i5-76 cpu'' = 5"
  by code_simp+

text \<open>
  Claim C1, as amended.  For a query of fewer than 200 characters: if some key shares a
  substring of positive length with the query, \<open>_find_by_model\<close> returns the record
  stored under the first key, in iteration order, whose longest common substring with
  the query (compared as given, no case folding) is as long as that of every key;
  otherwise it returns \<open>None\<close>.  A later key replaces the tracked winner exactly when
  its common substring is strictly longer.
\<close>

theorem find_by_model_first_best:
  assumes "length q < 200"
  shows "find_by_model cls db q
           = Inr (if \<exists>k\<in>set (map fst db). 0 < lcs_length k q then best_record db q else None)
     \<and> (lcs_length k q \<le> cur \<longrightarrow> find_loop q (k # ks) (cur, ex) = find_loop q ks (cur, ex))
     \<and> (cur < lcs_length k q \<longrightarrow>
          find_loop q (k # ks) (cur, ex) = find_loop q ks (lcs_length k q, Some k))"
  using assms find_by_model_short [OF assms, of cls db]
  by (simp add: find_loop_Cons match_score_lcs del: find_loop.simps)

theorem find_by_model_first_best_witness:
  "length ''intel i5-76 cpu'' < 200
   \<and> (\<exists>k\<in>set (map fst [(''i5-760'', 1::nat), (''i5-7600'', 2)]). 0 < lcs_length k ''intel i5-76 cpu'')
   \<and> best_record [(''i5-760'', 1::nat), (''i5-7600'', 2)] ''intel i5-76 cpu'' = Some 1
   \<and> find_by_model () [(''i5-760'', 1::nat), (''i5-7600'', 2)] ''intel i5-76 cpu'' = Inr (Some 1)
   \<and> lcs_length ''i5-7600'' ''intel i5-76 cpu'' \<le> 5
   \<and> find_loop ''intel i5-76 cpu'' [''i5-7600''] (5, Some ''i5-760'') = (5, Some ''i5-760'')
   \<and> 0 < lcs_length ''i5-760'' ''intel i5-76 cpu''
   \<and> find_loop ''intel i5-76 cpu'' [''i5-760''] (0, None) = (5, Some ''i5-760'')"
proof -
  let ?q = "''intel i5-76 cpu''"
  let ?db = "[(''i5-760'', 1::nat), (''i5-7600'', 2)]"
  have q: "length ?q < 200" by simp
  have ex: "\<exists>k\<in>set (map fst ?db). 0 < lcs_length k ?q" by (simp add: tie_lcs)
  have br: "best_record ?db ?q = Some 1"
    by (simp add: best_record_def first_best_key_def tie_lcs)
  from find_by_model_first_best [OF q, of "()" ?db "''i5-7600''" 5 "[]" "Some ''i5-760''"]
  have fb: "find_by_model () ?db ?q = Inr (Some 1)"
    and keep: "find_loop ?q [''i5-7600''] (5, Some ''i5-760'') = (5, Some ''i5-760'')"
    using ex br by (simp_all add: tie_lcs del: find_loop.simps(2))
  from find_by_model_first_best [OF q, of "()" ?db "''i5-760''" 0 "[]" None]
  have take: "find_loop ?q [''i5-760''] (0, None) = (5, Some ''i5-760'')"
    by (simp add: tie_lcs del: find_loop.simps(2))
  show ?thesis using q ex br fb keep take by (simp only: tie_lcs) simp
qed

text \<open>
  Claim C1 as stated fails at two inputs.  With the one key \<open>a\<close> and the query \<open>b\<close>
  the first key of maximal common-substring length is \<open>a\<close> (length 0), and the result
  is \<open>None\<close>, not its record.  With the keys \<open>b\<close> and \<open>aaa\<close> and the 201-character
  query \<open>long_query\<close> the key \<open>aaa\<close> has the longest common substring (3 against 1),
  and the result is the record of \<open>b\<close>.
\<close>

theorem find_by_model_first_best_counterexample:
  "find_by_model () [(''a'', 1::nat)] ''b'' = Inr None
   \<and> best_record [(''a'', 1::nat)] ''b'' = Some 1
   \<and> find_by_model () [(''b'', 1::nat), (''aaa'', 2)] long_query = Inr (Some 1)
   \<and> best_record [(''b'', 1::nat), (''aaa'', 2)] long_query = Some 2"
  by (simp add: short_example long_query_found long_query_best)

text \<open>
  Claim C2 at a query of 201 characters.  The database holds the one key \<open>aaa\<close>, the
  query contains \<open>aaa\<close>, their longest common substring has length 3, and the result
  is \<open>None\<close>: the character \<open>a\<close> occurs more than \<open>201 // 100 + 1 = 3\<close> times in the
  query, so the matcher drops it from its index and finds no match.
\<close>

theorem find_by_model_long_query_miss:
  "find_by_model () [(''aaa'', 1::nat)] long_query = Inr None
   \<and> lcs_length ''aaa'' long_query = 3
   \<and> sublist ''aaa'' long_query"
proof -
  have "sublist ''aaa'' long_query"
    unfolding sublist_def using long_query_split by blast
  then show ?thesis by (simp add: long_query_found long_query_lcs)
qed

text \<open>
  For a query of fewer than 200 characters the result is \<open>None\<close> exactly when no key
  shares a character with the query (in particular when the database is empty), and
  no call raises, whatever the length of the query.
\<close>

lemma find_by_model_None_iff:
  assumes "length q < 200"
  shows "find_by_model cls db q = Inr None \<longleftrightarrow> db = [] \<or> (\<forall>k\<in>set (map fst db). lcs_length k q = 0)"
proof (cases "\<exists>k\<in>set (map fst db). 0 < lcs_length k q")
  case True
  then have "find_by_model cls db q = Inr (best_record db q)"
    using find_by_model_short [OF assms, of cls db] by simp
  moreover have "find_by_model cls db q \<noteq> Inr None"
  proof
    assume n: "find_by_model cls db q = Inr None"
    from True have "\<not> (\<forall>k\<in>set (map fst db). match_score q k \<le> 0)"
      by (simp add: match_score_lcs [OF assms])
    from True obtain pre k post where "map fst db = pre @ k # post"
      by (meson split_list_first)
    then have ne: "map fst db \<noteq> []" by auto
    from first_best_key_exists [OF ne] obtain k' where k': "first_best_key (map fst db) q = Some k'"
      by blast
    then have "k' \<in> set (map fst db)"
      by (auto simp: first_best_key_def find_Some_iff)
    then have "map_of db k' \<noteq> None" by (simp add: map_of_eq_None_iff)
    then have "best_record db q \<noteq> None" by (simp add: best_record_def k')
    with n \<open>find_by_model cls db q = Inr (best_record db q)\<close> show False by simp
  qed
  ultimately show ?thesis using True by auto
next
  case False
  then have "find_by_model cls db q = Inr None"
    using find_by_model_short [OF assms, of cls db] by simp
  then show ?thesis using False by auto
qed

text \<open>
  Claim C9.  The result is \<open>None\<close> or a record that the database stores under one of its
  keys; no call raises.  The class argument does not enter the result, and the matcher
  commutes with every change of the records, so it reads no field of a record.  The
  model is a function of its arguments: it has no database to return, as the code only
  reads \<open>database.keys()\<close> and \<open>database[exact_model]\<close>.
\<close>

theorem find_by_model_returns_stored_record:
  "(find_by_model cls db q = Inr None
    \<or> (\<exists>k r. (k, r) \<in> set db \<and> map_of db k = Some r \<and> find_by_model cls db q = Inr (Some r)))
   \<and> find_by_model cls db q = find_by_model cls' db q
   \<and> find_by_model cls (map (\<lambda>(k, r). (k, f r)) db) q
       = map_sum id (map_option f) (find_by_model cls db q)"
proof -
  have keys: "map fst (map (\<lambda>(k, r). (k, f r)) db) = map fst db"
    by (induction db) auto
  have look: "map_of (map (\<lambda>(k, r). (k, f r)) db) k = map_option f (map_of db k)" for k
    by (induction db) auto
  have "find_by_model cls (map (\<lambda>(k, r). (k, f r)) db) q
       = map_sum id (map_option f) (find_by_model cls db q)"
    unfolding find_by_model_def keys
    by (simp add: look split: option.splits)
  moreover have "find_by_model cls db q = find_by_model cls' db q"
    by (simp add: find_by_model_def)
  ultimately show ?thesis using find_by_model_never_raises [of cls db q] by blast
qed

section \<open>Properties of the RAM extraction\<close>

lemma scan_parts_eq:
  "ram_clutter = pre @ parts \<Longrightarrow> length pre = i \<Longrightarrow>
   scan_parts lim ram_clutter i parts =
     (case dropWhile (\<lambda>t. \<not> isdigit t) parts of
        [] \<Rightarrow> Inr None
      | t # rest \<Rightarrow>
          (case py_int lim t of
             Inl e \<Rightarrow> Inl e
           | Inr v \<Rightarrow> Inr (Some (v, case rest of [] \<Rightarrow> ''b'' | u # _ \<Rightarrow> u))))"
proof (induction parts arbitrary: pre i)
  case Nil
  then show ?case by simp
next
  case (Cons part parts)
  show ?case
  proof (cases "isdigit part")
    case True
    have len: "length ram_clutter = i + 1 + length parts" using Cons.prems by simp
    show ?thesis
    proof (cases parts)
      case Nil
      then show ?thesis using True len by (simp split: sum.splits)
    next
      case (Cons u us)
      have "ram_clutter ! (i + 1) = u"
        using Cons.prems(1,2) Cons by (simp add: nth_append)
      then show ?thesis using True len Cons by (simp split: sum.splits)
    qed
  next
    case False
    have "ram_clutter = (pre @ [part]) @ parts" "length (pre @ [part]) = i + 1"
      using Cons.prems by simp_all
    from Cons.IH [OF this] show ?thesis using False by simp
  qed
qed

lemma ram_examples:
  "extract_value_unit 4300 ''8 GB RAM'' = Inr (Some (8, ''gb''))"
  "extract_value_unit 4300 ''8'' = Inr (Some (8, ''b''))"
  "extract_value_unit 4300 ''no digits here'' = Inr None"
  "extract_value_unit 4300 ''8  GB'' = Inr (Some (8, []))"
  "extract_value_unit 4300 ''+8 GB'' = Inr None"
  "extract_value_unit 4300 (CHR 0xB2 # '' 8 GB'') = Inl ValueError"
  "spec_extract (CHR 0xB2 # '' 8 GB'') = Some (8, ''GB'')"
  "spec_extract ''8 GB RAM'' = Some (8, ''GB'')"
  "spec_extract ''8  GB'' = Some (8, ''GB'')"
  "spec_extract ''+8 GB'' = Some (8, ''GB'')"
  by code_simp+

lemma bytes_examples:
  "human_readable_to_bytes 8 ''gb'' = 8 * 1024 ^ 3"
  "human_readable_to_bytes 8 ''GB'' = 8 * 1024 ^ 3"
  "human_readable_to_bytes 8 ''b'' = 8"
  "human_readable_to_bytes 8 [] = 8"
  by code_simp+

lemma ram_from_clutter_eq:
  "ram_from_clutter lim s =
     (case extract_value_unit lim s of
        Inl e \<Rightarrow> None
      | Inr None \<Rightarrow> None
      | Inr (Some (v, u)) \<Rightarrow> Some (human_readable_to_bytes v u))"
  by (simp add: ram_from_clutter_def ram_try_def split: sum.splits option.splits)

text \<open>
  Claim C5, as amended.  The RAM step folds the case of the string, cuts it at every
  single space, takes the first part for which \<open>str.isdigit\<close> holds and, as unit, the
  part after it (which may be empty), or \<open>b\<close> when that part is the last one, and
  converts the pair to bytes.  Without such a part, or when \<open>int\<close> refuses the part
  (it holds a superscript digit, or more digits than the limit), the result is
  \<open>None\<close>; no exception leaves the step.  So \<open>8 GB RAM\<close> gives the pair 8 and
  \<open>gb\<close>, 8 * 1024^3 bytes; \<open>8\<close> gives 8 and \<open>b\<close>; \<open>no digits here\<close> gives
  \<open>None\<close>, and so does a string whose first part is the character U+00B2.
\<close>

theorem ram_extraction:
  "ram_from_clutter lim s =
     (case dropWhile (\<lambda>t. \<not> isdigit t) (split_space (casefold s)) of
        [] \<Rightarrow> None
      | t # rest \<Rightarrow>
          if is_decimal t then
            (if too_long lim t then None
             else Some (human_readable_to_bytes (int_of_digits t)
                          (case rest of [] \<Rightarrow> ''b'' | u # _ \<Rightarrow> u)))
          else None)
   \<and> extract_value_unit 4300 ''8 GB RAM'' = Inr (Some (8, ''gb''))
   \<and> ram_from_clutter 4300 ''8 GB RAM'' = Some (8 * 1024 ^ 3)
   \<and> extract_value_unit 4300 ''8'' = Inr (Some (8, ''b''))
   \<and> ram_from_clutter 4300 ''8'' = Some 8
   \<and> extract_value_unit 4300 ''no digits here'' = Inr None
   \<and> ram_from_clutter 4300 ''no digits here'' = None
   \<and> extract_value_unit 4300 (CHR 0xB2 # '' 8 GB'') = Inl ValueError
   \<and> ram_from_clutter 4300 (CHR 0xB2 # '' 8 GB'') = None"
proof -
  define ds where "ds = dropWhile (\<lambda>t. \<not> isdigit t) (split_space (casefold s))"
  have e: "extract_value_unit lim s =
     (case ds of
        [] \<Rightarrow> Inr None
      | t # rest \<Rightarrow>
          (case py_int lim t of
             Inl e \<Rightarrow> Inl e
           | Inr v \<Rightarrow> Inr (Some (v, case rest of [] \<Rightarrow> ''b'' | u # _ \<Rightarrow> u))))"
    unfolding ds_def extract_value_unit_def Let_def
    by (rule scan_parts_eq [where pre = "[]"]) simp_all
  have "ram_from_clutter lim s =
     (case ds of
        [] \<Rightarrow> None
      | t # rest \<Rightarrow>
          if is_decimal t then
            (if too_long lim t then None
             else Some (human_readable_to_bytes (int_of_digits t)
                          (case rest of [] \<Rightarrow> ''b'' | u # _ \<Rightarrow> u)))
          else None)"
    by (cases ds) (simp_all add: ram_from_clutter_eq e py_int_def)
  then show ?thesis
    unfolding ds_def by (simp add: ram_from_clutter_eq ram_examples bytes_examples)
qed

theorem ram_extraction_witness:
  "ram_from_clutter 4300 ''Memory: 16 GB RAM'' = Some (16 * 1024 ^ 3)
   \<and> ram_from_clutter 4300 ''8  GB'' = Some 8
   \<and> ram_from_clutter 4300 (CHR 0xB2 # '' 8 GB'') = None
   \<and> ram_from_clutter 3 ''1024 MB'' = None
   \<and> ram_from_clutter 0 ''1024 MB'' = Some (1024 * 1024 ^ 2)"
proof -
  have ds:
    "dropWhile (\<lambda>t. \<not> isdigit t) (split_space (casefold ''Memory: 16 GB RAM''))
       = [''16'', ''gb'', ''ram'']"
    "dropWhile (\<lambda>t. \<not> isdigit t) (split_space (casefold ''8  GB'')) = [''8'', [], ''gb'']"
    "dropWhile (\<lambda>t. \<not> isdigit t) (split_space (casefold (CHR 0xB2 # '' 8 GB'')))
       = [[CHR 0xB2], ''8'', ''gb'']"
    "dropWhile (\<lambda>t. \<not> isdigit t) (split_space (casefold ''1024 MB'')) = [''1024'', ''mb'']"
    by code_simp+
  have dec:
    "is_decimal ''16'' = True" "is_decimal ''8'' = True" "is_decimal [CHR 0xB2] = False"
    "is_decimal ''1024'' = True" "too_long 4300 ''16'' = False" "too_long 4300 ''8'' = False"
    "too_long 3 ''1024'' = True" "too_long 0 ''1024'' = False"
    by code_simp+
  have val:
    "human_readable_to_bytes (int_of_digits ''16'') ''gb'' = 16 * 1024 ^ 3"
    "human_readable_to_bytes (int_of_digits ''8'') [] = 8"
    "human_readable_to_bytes (int_of_digits ''1024'') ''mb'' = 1024 * 1024 ^ 2"
    by code_simp+
  show ?thesis
    using ram_extraction [of 4300 "''Memory: 16 GB RAM''"] ram_extraction [of 4300 "''8  GB''"]
      ram_extraction [of 4300 "CHR 0xB2 # '' 8 GB''"] ram_extraction [of 3 "''1024 MB''"]
      ram_extraction [of 0 "''1024 MB''"]
    by (simp add: ds dec val)
qed

text \<open>
  Claim C5 as stated fails: two spaces between number and unit leave an empty unit, so
  \<open>8  GB\<close> is 8 bytes; \<open>+8\<close> parses as an integer and is not a string of digits,
  so \<open>+8 GB\<close> gives \<open>None\<close>; the character U+00B2 does not parse as an integer,
  yet as a part it stops the scan, so that part before \<open>8 GB\<close> gives \<open>None\<close>; and
  the unit of \<open>8 GB RAM\<close> is \<open>gb\<close>, not \<open>GB\<close>.
\<close>

theorem ram_extraction_counterexample:
  "ram_from_clutter 4300 ''8  GB'' = Some 8
   \<and> spec_ram ''8  GB'' = Some (8 * 1024 ^ 3)
   \<and> ram_from_clutter 4300 ''+8 GB'' = None
   \<and> spec_ram ''+8 GB'' = Some (8 * 1024 ^ 3)
   \<and> ram_from_clutter 4300 (CHR 0xB2 # '' 8 GB'') = None
   \<and> spec_ram (CHR 0xB2 # '' 8 GB'') = Some (8 * 1024 ^ 3)
   \<and> extract_value_unit 4300 ''8 GB RAM'' = Inr (Some (8, ''gb''))
   \<and> spec_extract ''8 GB RAM'' = Some (8, ''GB'')"
  by (simp add: ram_from_clutter_eq spec_ram_def ram_examples bytes_examples)

section \<open>Properties of the database files\<close>

lemma dict_set_keys:
  "map fst (dict_set k v d) = (if k \<in> set (map fst d) then map fst d else map fst d @ [k])"
  by (induction k v d rule: dict_set.induct) auto

lemma dict_set_new: "k \<notin> set (map fst d) \<Longrightarrow> dict_set k v d = d @ [(k, v)]"
  by (induction k v d rule: dict_set.induct) auto

lemma fold_dict_set_distinct:
  "distinct (map kf xs) \<Longrightarrow> set (map kf xs) \<inter> set (map fst d) = {} \<Longrightarrow>
   fold (\<lambda>x d. dict_set (kf x) (vf x) d) xs d = d @ map (\<lambda>x. (kf x, vf x)) xs"
proof (induction xs arbitrary: d)
  case Nil
  then show ?case by simp
next
  case (Cons x xs)
  have new: "kf x \<notin> set (map fst d)" using Cons.prems by auto
  have "distinct (map kf xs)" "set (map kf xs) \<inter> set (map fst (d @ [(kf x, vf x)])) = {}"
    using Cons.prems by auto
  from Cons.IH [OF this] show ?case by (simp add: dict_set_new [OF new])
qed

lemma fold_dict_set_sorted:
  fixes kf :: "'x \<Rightarrow> 'k::linorder"
  shows "sorted (map kf xs) \<Longrightarrow> sorted (map fst d) \<Longrightarrow> distinct (map fst d) \<Longrightarrow>
   (\<forall>k\<in>set (map fst d). \<forall>x\<in>set xs. k \<le> kf x) \<Longrightarrow>
   sorted (map fst (fold (\<lambda>x d. dict_set (kf x) (vf x) d) xs d))
   \<and> distinct (map fst (fold (\<lambda>x d. dict_set (kf x) (vf x) d) xs d))
   \<and> set (map fst (fold (\<lambda>x d. dict_set (kf x) (vf x) d) xs d)) = set (map fst d) \<union> set (map kf xs)"
proof (induction xs arbitrary: d)
  case Nil
  then show ?case by simp
next
  case (Cons x xs)
  let ?d = "dict_set (kf x) (vf x) d"
  have keys: "map fst ?d = (if kf x \<in> set (map fst d) then map fst d else map fst d @ [kf x])"
    by (rule dict_set_keys)
  have 1: "sorted (map kf xs)" using Cons.prems(1) by simp
  have 2: "sorted (map fst ?d)"
    using Cons.prems(2,4) by (auto simp: keys sorted_append)
  have 3: "distinct (map fst ?d)"
    using Cons.prems(3) by (auto simp: keys)
  have 4: "\<forall>k\<in>set (map fst ?d). \<forall>y\<in>set xs. k \<le> kf y"
    using Cons.prems(1,4) by (auto simp: keys)
  have 5: "set (map fst ?d) = set (map fst d) \<union> {kf x}"
    by (auto simp: keys)
  from Cons.IH [OF 1 2 3 4] show ?case using 5 by auto
qed

lemma conv_cpus_distinct:
  "distinct (map model cpus) \<Longrightarrow>
   conv_cpus cpus = map (\<lambda>cpu. (model cpu,
        \<lparr>specs_product_id = product_id cpu, specs_vendor = vendor cpu,
         specs_corecount = corecount cpu, specs_corespeed = corespeed cpu,
         specs_score = score cpu\<rparr>)) cpus"
  unfolding conv_cpus_def
  using fold_dict_set_distinct [of model cpus "[]"] by simp

lemma conv_gpus_distinct:
  "distinct (map gpu_model gpus) \<Longrightarrow>
   conv_gpus gpus = map (\<lambda>gpu. (gpu_model gpu,
        \<lparr>gspecs_vendor = gpu_vendor gpu, gspecs_vram = vram gpu,
         gspecs_corespeed = gpu_corespeed gpu, gspecs_codename = codename gpu,
         gspecs_score = gpu_score gpu\<rparr>)) gpus"
  unfolding conv_gpus_def
  using fold_dict_set_distinct [of gpu_model gpus "[]"] by simp

lemma conv_cpus_sorted:
  "sorted (map model cpus) \<Longrightarrow> sorted (map fst (conv_cpus cpus)) \<and> distinct (map fst (conv_cpus cpus))"
  unfolding conv_cpus_def
  by (rule conjI [OF conjunct1 conjunct1 [OF conjunct2]];
      rule fold_dict_set_sorted [where d = "[]"]; simp)

lemma conv_gpus_sorted:
  "sorted (map gpu_model gpus) \<Longrightarrow> sorted (map fst (conv_gpus gpus)) \<and> distinct (map fst (conv_gpus gpus))"
  unfolding conv_gpus_def
  by (rule conjI [OF conjunct1 conjunct1 [OF conjunct2]];
      rule fold_dict_set_sorted [where d = "[]"]; simp)

lemma load_ignores_stored_score:
  "load_cpus cpu_score file (fs(file \<mapsto> map (\<lambda>(k, e). (k, e\<lparr>specs_score := t k e\<rparr>)) raw))
     = load_cpus cpu_score file (fs(file \<mapsto> raw))"
  "load_gpus gpu_score_of gfile (gfs(gfile \<mapsto> map (\<lambda>(k, e). (k, e\<lparr>gspecs_score := t' k e\<rparr>)) graw))
     = load_gpus gpu_score_of gfile (gfs(gfile \<mapsto> graw))"
  by (simp_all add: load_cpus_def load_gpus_def comp_def case_prod_unfold)

text \<open>
  Claim C7.  For records with pairwise distinct models, loading the file that
  \<open>save_cpus\<close> (\<open>save_gpus\<close>) wrote gives, in the same order, the records that the
  constructor builds from the model and the specifications of each record saved: the
  same fields, and the score that the constructor computes from them.  The score
  stored in a file does not enter what is loaded.
\<close>

theorem load_after_save:
  assumes "distinct (map model cpus)" and "distinct (map gpu_model gpus)"
  shows "load_cpus cpu_score file (save_cpus cpus file fs)
           = map (\<lambda>c. CPU cpu_score (model c) (product_id c) (vendor c) (corecount c) (corespeed c)) cpus
     \<and> load_gpus gpu_score_of gfile (save_gpus gpus gfile gfs)
           = map (\<lambda>g. GPU gpu_score_of (gpu_model g) (gpu_vendor g) (vram g) (gpu_corespeed g) (codename g)) gpus
     \<and> load_cpus cpu_score file (fs(file \<mapsto> map (\<lambda>(k, e). (k, e\<lparr>specs_score := t k e\<rparr>)) raw))
           = load_cpus cpu_score file (fs(file \<mapsto> raw))
     \<and> load_gpus gpu_score_of gfile (gfs(gfile \<mapsto> map (\<lambda>(k, e). (k, e\<lparr>gspecs_score := t' k e\<rparr>)) graw))
           = load_gpus gpu_score_of gfile (gfs(gfile \<mapsto> graw))"
  by (simp add: load_ignores_stored_score)
     (simp add: load_cpus_def save_cpus_def load_gpus_def save_gpus_def
        conv_cpus_distinct [OF assms(1)] conv_gpus_distinct [OF assms(2)] comp_def)

theorem load_after_save_witness:
  "distinct (map model
      [\<lparr>model = ''i5-750'', product_id = 42915, vendor = ''intel'', corecount = 4,
        corespeed = 2660000000, score = (0::int, 0::int)\<rparr>,
       \<lparr>model = ''i3-530'', product_id = 46472, vendor = ''intel'', corecount = 2,
        corespeed = 2930000000, score = (0, 0)\<rparr>])
   \<and> distinct (map gpu_model
      [\<lparr>gpu_model = ''geforce gtx 760'', gpu_vendor = ''nvidia'', vram = 2147483648,
        gpu_corespeed = 980000000, codename = ''gk104'', gpu_score = (0::int, 0::int)\<rparr>])
   \<and> load_cpus Pair CPU_DATABASE (save_cpus
      [\<lparr>model = ''i5-750'', product_id = 42915, vendor = ''intel'', corecount = 4,
        corespeed = 2660000000, score = (0, 0)\<rparr>,
       \<lparr>model = ''i3-530'', product_id = 46472, vendor = ''intel'', corecount = 2,
        corespeed = 2930000000, score = (0, 0)\<rparr>] CPU_DATABASE Map.empty)
     = [\<lparr>model = ''i5-750'', product_id = 42915, vendor = ''intel'', corecount = 4,
         corespeed = 2660000000, score = (4, 2660000000)\<rparr>,
        \<lparr>model = ''i3-530'', product_id = 46472, vendor = ''intel'', corecount = 2,
         corespeed = 2930000000, score = (2, 2930000000)\<rparr>]
   \<and> load_gpus Pair GPU_DATABASE (save_gpus
      [\<lparr>gpu_model = ''geforce gtx 760'', gpu_vendor = ''nvidia'', vram = 2147483648,
        gpu_corespeed = 980000000, codename = ''gk104'', gpu_score = (0, 0)\<rparr>] GPU_DATABASE Map.empty)
     = [\<lparr>gpu_model = ''geforce gtx 760'', gpu_vendor = ''nvidia'', vram = 2147483648,
         gpu_corespeed = 980000000, codename = ''gk104'', gpu_score = (2147483648, 980000000)\<rparr>]"
proof -
  let ?cpus = "[\<lparr>model = ''i5-750'', product_id = 42915, vendor = ''intel'', corecount = 4,
        corespeed = 2660000000, score = (0::int, 0::int)\<rparr>,
       \<lparr>model = ''i3-530'', product_id = 46472, vendor = ''intel'', corecount = 2,
        corespeed = 2930000000, score = (0, 0)\<rparr>]"
  let ?gpus = "[\<lparr>gpu_model = ''geforce gtx 760'', gpu_vendor = ''nvidia'', vram = 2147483648,
        gpu_corespeed = 980000000, codename = ''gk104'', gpu_score = (0::int, 0::int)\<rparr>]"
  have d1: "distinct (map model ?cpus)" by simp
  have d2: "distinct (map gpu_model ?gpus)" by simp
  from load_after_save [OF d1 d2, of Pair CPU_DATABASE Map.empty Pair GPU_DATABASE Map.empty]
  show ?thesis using d1 d2 by (simp add: CPU_def GPU_def)
qed

text \<open>
  \<open>update-cpu-database.py\<close> and \<open>update-gpu-database.py\<close> sort the records by model
  just before they save them, so the object each of them writes lists its keys in
  ascending order, without repetition, whatever the scraper returned and whatever the
  old database held.
\<close>

lemma update_scripts_write_sorted:
  "(\<exists>file. update_cpu_database cpu_score intel_ark_parse fs CPU_DATABASE = Some file
        \<and> sorted (map fst file) \<and> distinct (map fst file))
   \<and> (\<exists>gfile. update_gpu_database gpu_score_of wiki_parse gfs GPU_DATABASE = Some gfile
        \<and> sorted (map fst gfile) \<and> distinct (map fst gfile))"
  by (simp add: update_cpu_database_def update_gpu_database_def save_cpus_def save_gpus_def
      Let_def conv_cpus_sorted conv_gpus_sorted)

text \<open>
  Claim C8 at \<open>convert-divinity76s-database.py\<close>, the third script that writes the
  CPU database.  It saves the converted list as it is, with no sort: from a source that
  lists the i5-750 before the i3-530 it writes the key \<open>i5-750\<close> before the key
  \<open>i3-530\<close>, and the keys of the file are not in ascending order.
\<close>

theorem convert_database_writes_unsorted:
  "convert_database (\<lambda>key cpu. Some cpu)
      [(''42915'', CPU Pair ''i5-750'' 42915 ''intel'' 4 2660000000),
       (''46472'', CPU Pair ''i3-530'' 46472 ''intel'' 2 2930000000)] Map.empty CPU_DATABASE
     = Some [(''i5-750'', \<lparr>specs_product_id = 42915, specs_vendor = ''intel'', specs_corecount = 4,
                specs_corespeed = 2660000000, specs_score = (4, 2660000000)\<rparr>),
             (''i3-530'', \<lparr>specs_product_id = 46472, specs_vendor = ''intel'', specs_corecount = 2,
                specs_corespeed = 2930000000, specs_score = (2, 2930000000)\<rparr>)]
   \<and> \<not> sorted [''i5-750'', ''i3-530'']"
proof -
  have "\<not> ''i5-750'' \<le> ''i3-530''" by code_simp
  then show ?thesis
    by (simp add: convert_database_def convert_def save_cpus_def conv_cpus_def CPU_def)
qed

end
